theory Spec2Isabelle
  imports Main "HOL-Library.Multiset" "HOL-Library.AList"
begin

section \<open>The snapshot reducer of the Balote replay viewer (state.js)\<close>

text \<open>
  The JavaScript module \<^verbatim>\<open>src/frontend/js/state.js\<close> exports three functions:
  \<^verbatim>\<open>buildInitialState\<close>, \<^verbatim>\<open>applyAction\<close> and \<^verbatim>\<open>computeStateAt\<close>. They are embedded
  below as HOL functions over records. Conventions of the embedding:
  \<^item> a card is the string of the recorded game (\<^verbatim>\<open>"7H"\<close>, \<^verbatim>\<open>"TS"\<close>: rank, then one
    letter of suit, as \<^verbatim>\<open>renderCardFace\<close> reads it);
  \<^item> a player is an integer; a field that may be \<^verbatim>\<open>null\<close> or \<^verbatim>\<open>undefined\<close> is an
    \<open>option\<close>, with \<open>None\<close> for both;
  \<^item> the numbers of JavaScript are doubles, the integers of the embedding are unbounded:
    the sum \<^verbatim>\<open>p + 1\<close> of \<^verbatim>\<open>applyAction\<close> is modelled by the integer sum, which is the
    sum of the doubles for a player \<open>p\<close> of magnitude below \<open>2 ^ 53\<close> only (at
    \<open>p = 2 ^ 53\<close> the doubles give \<open>p + 1 = p\<close>). The seats are 0 to 3, and what is
    proved of the next seat is stated for the seats;
  \<^item> the objects \<^verbatim>\<open>hands\<close> and \<^verbatim>\<open>tricksWon\<close> are maps keyed by the player index
    (the property key of the integer \<open>p\<close> is its decimal string);
  \<^item> reading a property of \<^verbatim>\<open>undefined\<close> throws a \<^verbatim>\<open>TypeError\<close>: the result type of
    the functions is \<open>error + game_state\<close>;
  \<^item> \<^verbatim>\<open>structuredClone\<close> makes a deep copy, so the assignments of \<^verbatim>\<open>applyAction\<close>
    act on a value of its own: in HOL, on the record passed by value. A second
    embedding, over a store of objects, follows the assignments one by one; it is
    proved to compute the first and to leave the objects of its caller alone.
\<close>

subsection \<open>Data\<close>

type_synonym card = string

datatype error = TypeError

text \<open>An entry of the trick: the object literal \<^verbatim>\<open>{ player: p, card }\<close>.\<close>

type_synonym trick_entry = "int \<times> card option"

record game_state =
  phase :: string
  dealer :: int
  currentPlayer :: "int option"
  floorCard :: "card option"
  hands :: "int \<rightharpoonup> card list"
  trick :: "trick_entry list"
  trickComplete :: bool
  tricksWon :: "int \<rightharpoonup> int"
  mode :: "string option"
  trump :: "string option"

text \<open>
  The payload of an action carries the fields that \<^verbatim>\<open>applyAction\<close> reads:
  \<^verbatim>\<open>mode\<close>, \<^verbatim>\<open>trump_suit\<close>, \<^verbatim>\<open>floor_taker\<close> (FINALIZE\_CONTRACT) and \<^verbatim>\<open>card\<close>
  (PLAY\_CARD). A field that the recorded action does not have is \<open>None\<close>.
\<close>

record payload =
  payload_mode :: "string option"
  trump_suit :: "string option"
  floor_taker :: "int option"
  payload_card :: "card option"

record action =
  action_type :: string
  player :: "int option"
  payload :: "payload option"

text \<open>
  The recorded round, as \<^verbatim>\<open>buildInitialState\<close> and \<^verbatim>\<open>computeStateAt\<close> read it:
  \<^verbatim>\<open>json.initial.start_phase\<close>, \<^verbatim>\<open>json.initial.meta.dealer\<close>,
  \<^verbatim>\<open>json.initial.bidding.{current_player, floor_card, hands_5}\<close> and \<^verbatim>\<open>json.actions\<close>.
\<close>

record round_json =
  start_phase :: string
  meta_dealer :: int
  current_player :: "int option"
  floor_card :: "card option"
  hands_5 :: "int \<rightharpoonup> card list"
  actions :: "action list"

subsection \<open>buildInitialState\<close>

text \<open>
  The loop over the keys of \<^verbatim>\<open>hands_5\<close> copies every hand (\<^verbatim>\<open>[...hands_5[p]]\<close>):
  the new object has the same keys and equal arrays.
\<close>

definition buildInitialState :: "round_json \<Rightarrow> game_state" where
  "buildInitialState json =
     \<lparr> phase = start_phase json,
       dealer = meta_dealer json,
       currentPlayer = current_player json,
       floorCard = floor_card json,
       hands = hands_5 json,
       trick = [],
       trickComplete = False,
       tricksWon = [0 \<mapsto> 0, 1 \<mapsto> 0, 2 \<mapsto> 0, 3 \<mapsto> 0],
       mode = None,
       trump = None \<rparr>"

subsection \<open>applyAction\<close>

text \<open>
  The remainder operator \<^verbatim>\<open>%\<close> of JavaScript truncates towards zero: the result has
  the sign of the dividend. The definition is the operator on integers that doubles
  hold exactly, of magnitude up to \<open>2 ^ 53\<close>.
\<close>

definition js_rem :: "int \<Rightarrow> int \<Rightarrow> int" where
  "js_rem a b = sgn a * (\<bar>a\<bar> mod \<bar>b\<bar>)"

text \<open>Lines 27 to 30: a trick completed by the previous action is cleared.\<close>

definition clearTrick :: "game_state \<Rightarrow> game_state" where
  "clearTrick s =
     (if trickComplete s then s\<lparr>trick := [], trickComplete := False\<rparr> else s)"

text \<open>
  Lines 32 to 37. \<^verbatim>\<open>action.payload.mode\<close> throws when the action has no payload.
\<close>

definition finalizeContract :: "action \<Rightarrow> game_state \<Rightarrow> error + game_state" where
  "finalizeContract a s =
     (if action_type a = ''FINALIZE_CONTRACT'' then
        (case payload a of
           None \<Rightarrow> Inl TypeError
         | Some pl \<Rightarrow>
             Inr (s\<lparr>phase := ''PLAYING'',
                    mode := payload_mode pl,
                    trump := trump_suit pl,
                    currentPlayer := floor_taker pl\<rparr>))
      else Inr s)"

text \<open>
  Lines 39 to 53. \<^verbatim>\<open>action.payload.card\<close> throws when the action has no payload, and
  \<^verbatim>\<open>s.hands[p].filter\<close> throws when \<^verbatim>\<open>hands\<close> has no entry for \<^verbatim>\<open>p\<close> (also when
  the action has no player: the key is then \<^verbatim>\<open>"undefined"\<close>). The filter removes
  every element of the hand that is strictly equal to the card; nothing checks that
  the card is in the hand. \<open>p + 1\<close> is the integer sum: it is the sum that line 51
  computes on doubles when the magnitude of \<open>p\<close> is below \<open>2 ^ 53\<close>, and differs
  from it beyond (the doubles round).
\<close>

definition playCard :: "action \<Rightarrow> game_state \<Rightarrow> error + game_state" where
  "playCard a s =
     (if action_type a = ''PLAY_CARD'' then
        (case payload a of
           None \<Rightarrow> Inl TypeError
         | Some pl \<Rightarrow>
            (case player a of
               None \<Rightarrow> Inl TypeError
             | Some p \<Rightarrow>
                (case hands s p of
                   None \<Rightarrow> Inl TypeError
                 | Some h \<Rightarrow>
                    (let card = payload_card pl;
                         s1 = s\<lparr>hands := (hands s)(p \<mapsto> filter (\<lambda>c. Some c \<noteq> card) h)\<rparr>;
                         s2 = s1\<lparr>trick := trick s1 @ [(p, card)]\<rparr>
                     in if length (trick s2) = 4
                        then (let winner = p
                              in Inr (s2\<lparr>currentPlayer := Some winner, trickComplete := True\<rparr>))
                        else Inr (s2\<lparr>currentPlayer := Some (js_rem (p + 1) 4)\<rparr>)))))
      else Inr s)"

definition applyAction :: "game_state \<Rightarrow> action \<Rightarrow> error + game_state" where
  "applyAction state a =
     (let s = clearTrick state
      in case finalizeContract a s of
           Inl e \<Rightarrow> Inl e
         | Inr s' \<Rightarrow> playCard a s')"

subsection \<open>computeStateAt\<close>

text \<open>
  The loop \<^verbatim>\<open>for (let i = 0; i < step; i++) state = applyAction(state, json.actions[i])\<close>.
  Beyond the end of the log \<^verbatim>\<open>json.actions[i]\<close> is \<^verbatim>\<open>undefined\<close>, and
  \<^verbatim>\<open>action.type\<close> throws. The step is a count of actions, a natural number.
\<close>

function computeStateAt_loop :: "round_json \<Rightarrow> nat \<Rightarrow> nat \<Rightarrow> game_state \<Rightarrow> error + game_state" where
  "computeStateAt_loop json step i state =
     (if i < step then
        (if i < length (actions json) then
           (case applyAction state (actions json ! i) of
              Inl e \<Rightarrow> Inl e
            | Inr state' \<Rightarrow> computeStateAt_loop json step (i + 1) state')
         else Inl TypeError)
      else Inr state)"
  by pat_completeness auto
termination
  by (relation "measure (\<lambda>(json, step, i, state). step - i)") auto

declare computeStateAt_loop.simps [simp del]

definition computeStateAt :: "round_json \<Rightarrow> nat \<Rightarrow> error + game_state" where
  "computeStateAt json step = computeStateAt_loop json step 0 (buildInitialState json)"

subsection \<open>applyAction on the store\<close>

text \<open>
  \<open>applyAction\<close> above works on values. The JavaScript works on objects: it clones the
  snapshot and then assigns to the fields of the clone, to a property of its \<^verbatim>\<open>hands\<close>
  object and, with \<^verbatim>\<open>push\<close>, to its \<^verbatim>\<open>trick\<close> array. To show that these assignments
  reach no object of the caller, the function is embedded a second time, statement by
  statement, over a store of objects: a list, in which an address is an index and a
  new object is appended. The snapshot object holds the addresses of its \<^verbatim>\<open>hands\<close>
  object, of its \<^verbatim>\<open>trick\<close> array and of its \<^verbatim>\<open>tricksWon\<close> object; the \<^verbatim>\<open>hands\<close> object
  holds its properties in order, each with the address of an array of cards. The
  entries of the trick are object literals that nothing assigns to; they are kept as
  values.
\<close>

type_synonym addr = nat

record snapshot_obj =
  o_phase :: string
  o_dealer :: int
  o_currentPlayer :: "int option"
  o_floorCard :: "card option"
  o_hands :: addr
  o_trick :: addr
  o_trickComplete :: bool
  o_tricksWon :: addr
  o_mode :: "string option"
  o_trump :: "string option"

datatype obj =
    Snapshot snapshot_obj
  | Hands "(int \<times> addr) list"
  | Cards "card list"
  | Entries "trick_entry list"
  | Counts "int \<rightharpoonup> int"

type_synonym heap = "obj list"

text \<open>Reading an address, and allocating a new object.\<close>

definition lookup :: "heap \<Rightarrow> addr \<Rightarrow> obj option" where
  "lookup h a = (if a < length h then Some (h ! a) else None)"

definition alloc :: "heap \<Rightarrow> obj \<Rightarrow> heap \<times> addr" where
  "alloc h ob = (h @ [ob], length h)"

text \<open>
  The snapshot value that the object at an address stands for; \<open>None\<close> when the
  address does not hold a snapshot with its parts.
\<close>

fun read_hands :: "heap \<Rightarrow> (int \<times> addr) list \<Rightarrow> (int \<rightharpoonup> card list) option" where
  "read_hands h [] = Some Map.empty"
| "read_hands h ((k, a) # kvs) =
     (case lookup h a of
        Some (Cards cs) \<Rightarrow>
          (case read_hands h kvs of None \<Rightarrow> None | Some m \<Rightarrow> Some (m(k \<mapsto> cs)))
      | _ \<Rightarrow> None)"

definition snapshot_of ::
  "snapshot_obj \<Rightarrow> (int \<rightharpoonup> card list) \<Rightarrow> trick_entry list \<Rightarrow> (int \<rightharpoonup> int) \<Rightarrow> game_state" where
  "snapshot_of ob m es w =
     \<lparr> phase = o_phase ob, dealer = o_dealer ob, currentPlayer = o_currentPlayer ob,
       floorCard = o_floorCard ob, hands = m, trick = es,
       trickComplete = o_trickComplete ob, tricksWon = w,
       mode = o_mode ob, trump = o_trump ob \<rparr>"

definition read_snapshot :: "heap \<Rightarrow> addr \<Rightarrow> game_state option" where
  "read_snapshot h r =
     (case lookup h r of
        Some (Snapshot ob) \<Rightarrow>
          (case lookup h (o_hands ob) of
             Some (Hands kvs) \<Rightarrow>
               (case lookup h (o_trick ob) of
                  Some (Entries es) \<Rightarrow>
                    (case lookup h (o_tricksWon ob) of
                       Some (Counts w) \<Rightarrow>
                         (case read_hands h kvs of
                            None \<Rightarrow> None
                          | Some m \<Rightarrow> Some (snapshot_of ob m es w))
                     | _ \<Rightarrow> None)
                | _ \<Rightarrow> None)
           | _ \<Rightarrow> None)
      | _ \<Rightarrow> None)"

text \<open>
  \<^verbatim>\<open>structuredClone(state)\<close>: a deep copy. Every array of cards, the \<^verbatim>\<open>hands\<close> object,
  the \<^verbatim>\<open>trick\<close> array, the \<^verbatim>\<open>tricksWon\<close> object and the snapshot object are allocated
  anew.
\<close>

fun clone_hands :: "heap \<Rightarrow> (int \<times> addr) list \<Rightarrow> (heap \<times> (int \<times> addr) list) option" where
  "clone_hands h [] = Some (h, [])"
| "clone_hands h ((k, a) # kvs) =
     (case lookup h a of
        Some (Cards cs) \<Rightarrow>
          (let (h1, a1) = alloc h (Cards cs)
           in case clone_hands h1 kvs of
                None \<Rightarrow> None
              | Some (h2, kvs') \<Rightarrow> Some (h2, (k, a1) # kvs'))
      | _ \<Rightarrow> None)"

definition structuredClone :: "heap \<Rightarrow> addr \<Rightarrow> (heap \<times> addr) option" where
  "structuredClone h r =
     (case lookup h r of
        Some (Snapshot ob) \<Rightarrow>
          (case lookup h (o_hands ob) of
             Some (Hands kvs) \<Rightarrow>
               (case lookup h (o_trick ob) of
                  Some (Entries es) \<Rightarrow>
                    (case lookup h (o_tricksWon ob) of
                       Some (Counts w) \<Rightarrow>
                         (case clone_hands h kvs of
                            None \<Rightarrow> None
                          | Some (h1, kvs') \<Rightarrow>
                              (let (h2, ha) = alloc h1 (Hands kvs');
                                   (h3, ta) = alloc h2 (Entries es);
                                   (h4, wa) = alloc h3 (Counts w)
                               in Some (alloc h4
                                    (Snapshot (ob\<lparr>o_hands := ha, o_trick := ta,
                                                  o_tricksWon := wa\<rparr>)))))
                     | _ \<Rightarrow> None)
                | _ \<Rightarrow> None)
           | _ \<Rightarrow> None)
      | _ \<Rightarrow> None)"

text \<open>
  The three steps of the body, on the clone \<open>s\<close>. \<^verbatim>\<open>s.trick = []\<close> allocates the empty
  array; \<^verbatim>\<open>filter\<close> allocates its result, which \<^verbatim>\<open>s.hands[p] = ...\<close> stores in the
  \<^verbatim>\<open>hands\<close> object of the clone; \<^verbatim>\<open>s.trick.push\<close> writes the \<^verbatim>\<open>trick\<close> array of the clone
  in place. The sum \<open>p + 1\<close> is the integer sum, as in \<open>playCard\<close>, with the same
  range.
\<close>

definition clearTrick_h :: "heap \<Rightarrow> addr \<Rightarrow> heap option" where
  "clearTrick_h h s =
     (case lookup h s of
        Some (Snapshot ob) \<Rightarrow>
          if o_trickComplete ob then
            (let (h1, ta) = alloc h (Entries [])
             in Some (h1[s := Snapshot (ob\<lparr>o_trick := ta, o_trickComplete := False\<rparr>)]))
          else Some h
      | _ \<Rightarrow> None)"

definition finalizeContract_h :: "action \<Rightarrow> heap \<Rightarrow> addr \<Rightarrow> (error + heap) option" where
  "finalizeContract_h a h s =
     (if action_type a = ''FINALIZE_CONTRACT'' then
        (case lookup h s of
           Some (Snapshot ob) \<Rightarrow>
             (case payload a of
                None \<Rightarrow> Some (Inl TypeError)
              | Some pl \<Rightarrow>
                  Some (Inr (h[s := Snapshot (ob\<lparr>o_phase := ''PLAYING'',
                                                  o_mode := payload_mode pl,
                                                  o_trump := trump_suit pl,
                                                  o_currentPlayer := floor_taker pl\<rparr>)])))
         | _ \<Rightarrow> None)
      else Some (Inr h))"

definition playCard_h :: "action \<Rightarrow> heap \<Rightarrow> addr \<Rightarrow> (error + heap) option" where
  "playCard_h a h s =
     (if action_type a = ''PLAY_CARD'' then
        (case lookup h s of
           Some (Snapshot ob) \<Rightarrow>
             (case payload a of
                None \<Rightarrow> Some (Inl TypeError)
              | Some pl \<Rightarrow>
                 (case player a of
                    None \<Rightarrow> Some (Inl TypeError)
                  | Some p \<Rightarrow>
                     (case lookup h (o_hands ob) of
                        Some (Hands kvs) \<Rightarrow>
                          (case map_of kvs p of
                             None \<Rightarrow> Some (Inl TypeError)
                           | Some ca \<Rightarrow>
                              (case lookup h ca of
                                 Some (Cards cs) \<Rightarrow>
                                   (let card = payload_card pl;
                                        (h1, na) = alloc h (Cards (filter (\<lambda>c. Some c \<noteq> card) cs));
                                        h2 = h1[o_hands ob := Hands (AList.update p na kvs)]
                                    in case lookup h2 (o_trick ob) of
                                         Some (Entries es) \<Rightarrow>
                                           (let h3 = h2[o_trick ob := Entries (es @ [(p, card)])]
                                            in if length (es @ [(p, card)]) = 4
                                               then Some (Inr (h3[s := Snapshot
                                                      (ob\<lparr>o_currentPlayer := Some p,
                                                            o_trickComplete := True\<rparr>)]))
                                               else Some (Inr (h3[s := Snapshot
                                                      (ob\<lparr>o_currentPlayer :=
                                                              Some (js_rem (p + 1) 4)\<rparr>)])))
                                       | _ \<Rightarrow> None)
                               | _ \<Rightarrow> None))
                      | _ \<Rightarrow> None)))
         | _ \<Rightarrow> None)
      else Some (Inr h))"

definition applyAction_h :: "heap \<Rightarrow> addr \<Rightarrow> action \<Rightarrow> ((error + addr) \<times> heap) option" where
  "applyAction_h h state a =
     (case structuredClone h state of
        None \<Rightarrow> None
      | Some (h1, s) \<Rightarrow>
         (case clearTrick_h h1 s of
            None \<Rightarrow> None
          | Some h2 \<Rightarrow>
             (case finalizeContract_h a h2 s of
                None \<Rightarrow> None
              | Some (Inl e) \<Rightarrow> Some (Inl e, h2)
              | Some (Inr h3) \<Rightarrow>
                 (case playCard_h a h3 s of
                    None \<Rightarrow> None
                  | Some (Inl e) \<Rightarrow> Some (Inl e, h3)
                  | Some (Inr h4) \<Rightarrow> Some (Inr s, h4)))))"

text \<open>
  Two stores agree below \<open>n\<close>; the snapshot object at \<open>s\<close>, its \<^verbatim>\<open>hands\<close> object and its
  \<^verbatim>\<open>trick\<close> array lie at \<open>n\<close> or above.
\<close>

definition same_below :: "nat \<Rightarrow> heap \<Rightarrow> heap \<Rightarrow> bool" where
  "same_below n h h' \<longleftrightarrow> n \<le> length h \<and> n \<le> length h' \<and> take n h' = take n h"

definition owned :: "nat \<Rightarrow> heap \<Rightarrow> addr \<Rightarrow> bool" where
  "owned n h s \<longleftrightarrow>
     (case lookup h s of
        Some (Snapshot ob) \<Rightarrow> n \<le> s \<and> n \<le> o_hands ob \<and> n \<le> o_trick ob
      | _ \<Rightarrow> False)"

subsection \<open>Replay as a fold, and the snapshots a replay reaches\<close>

text \<open>
  The contract of the replay in the words of the specification: \<open>stateAt\<close> folds the
  transition function over the first \<open>step\<close> actions of the log, starting from the
  initial snapshot, and stops at the first failure.
\<close>

fun applyAll :: "game_state \<Rightarrow> action list \<Rightarrow> error + game_state" where
  "applyAll s [] = Inr s"
| "applyAll s (a # log) =
     (case applyAction s a of Inl e \<Rightarrow> Inl e | Inr s' \<Rightarrow> applyAll s' log)"

definition stateAt :: "game_state \<Rightarrow> action list \<Rightarrow> nat \<Rightarrow> error + game_state" where
  "stateAt initial log step = applyAll initial (take step log)"

text \<open>
  A snapshot is reachable in a round when it is the initial snapshot of the round or
  the result of a successful \<open>applyAction\<close> on a reachable snapshot.
\<close>

inductive reachable :: "round_json \<Rightarrow> game_state \<Rightarrow> bool" for json :: round_json where
  initial: "reachable json (buildInitialState json)"
| step: "reachable json s \<Longrightarrow> applyAction s a = Inr s' \<Longrightarrow> reachable json s'"

text \<open>
  The invariant of the trick buffer: at most four entries, and \<open>trickComplete\<close> set
  exactly when there are four.
\<close>

definition trick_inv :: "game_state \<Rightarrow> bool" where
  "trick_inv s \<longleftrightarrow> length (trick s) \<le> 4 \<and> (trickComplete s \<longleftrightarrow> length (trick s) = 4)"

text \<open>The entry that an action puts on the trick, if it puts one.\<close>

definition played_entry :: "action \<Rightarrow> trick_entry list" where
  "played_entry a =
     (if action_type a = ''PLAY_CARD'' then
        (case (player a, payload a) of
           (Some p, Some pl) \<Rightarrow> [(p, payload_card pl)]
         | _ \<Rightarrow> [])
      else [])"

subsection \<open>The cards of a snapshot\<close>

text \<open>The four seats, and the cards of the four hands, seat after seat.\<close>

definition seats :: "int list" where
  "seats = [0, 1, 2, 3]"

definition hand_of :: "game_state \<Rightarrow> int \<Rightarrow> card list" where
  "hand_of s p = (case hands s p of None \<Rightarrow> [] | Some h \<Rightarrow> h)"

definition all_cards :: "game_state \<Rightarrow> card list" where
  "all_cards s = concat (map (hand_of s) seats)"

definition hand_total :: "game_state \<Rightarrow> nat" where
  "hand_total s = length (all_cards s)"

text \<open>The cards that the PLAY\_CARD actions of a log name, in the order of the log.\<close>

definition action_card :: "action \<Rightarrow> card list" where
  "action_card a =
     (if action_type a = ''PLAY_CARD'' then
        (case payload a of
           None \<Rightarrow> []
         | Some pl \<Rightarrow> (case payload_card pl of None \<Rightarrow> [] | Some c \<Rightarrow> [c]))
      else [])"

definition played_cards :: "action list \<Rightarrow> card list" where
  "played_cards log = concat (map action_card log)"

text \<open>
  An action plays a held card when it names a seat and a card that is in the hand
  of that seat. \<open>held_log\<close> says so of every PLAY\_CARD of a log, each at the snapshot
  it is applied to.
\<close>

definition plays_held_card :: "game_state \<Rightarrow> action \<Rightarrow> bool" where
  "plays_held_card s a =
     (case (player a, payload a) of
        (Some p, Some pl) \<Rightarrow>
          (case (hands s p, payload_card pl) of
             (Some h, Some c) \<Rightarrow> p \<in> set seats \<and> c \<in> set h
           | _ \<Rightarrow> False)
      | _ \<Rightarrow> False)"

fun held_log :: "game_state \<Rightarrow> action list \<Rightarrow> bool" where
  "held_log s [] = True"
| "held_log s (a # log) =
     ((action_type a = ''PLAY_CARD'' \<longrightarrow> plays_held_card s a) \<and>
      (case applyAction s a of Inl e \<Rightarrow> True | Inr s' \<Rightarrow> held_log s' log))"

subsection \<open>Trick resolution, as the specification words it\<close>

text \<open>
  Modelled from the spec: \<^verbatim>\<open>resolveTrick(trick, trump)\<close> is named by the
  specification (section 4.2) and is not in the source; no function of the source
  compares ranks or reads \<open>trump\<close>. The winner is the player of the highest-ranked
  card among the trump cards if any trump was played, otherwise of the highest-ranked
  card of the suit that was led. The specification leaves the order of the ranks
  open (it depends on the contract), so the order is a parameter: \<open>strength\<close> gives
  each card its place in the order.
\<close>

definition suit_of :: "card \<Rightarrow> string" where
  "suit_of c = (if c = [] then [] else [last c])"

definition entry_suit :: "trick_entry \<Rightarrow> string option" where
  "entry_suit e = map_option suit_of (snd e)"

definition entry_strength :: "(card \<Rightarrow> nat) \<Rightarrow> trick_entry \<Rightarrow> nat" where
  "entry_strength strength e = (case snd e of None \<Rightarrow> 0 | Some c \<Rightarrow> strength c)"

fun best_entry :: "(card \<Rightarrow> nat) \<Rightarrow> trick_entry list \<Rightarrow> trick_entry option" where
  "best_entry strength [] = None"
| "best_entry strength (e # es) =
     (case best_entry strength es of
        None \<Rightarrow> Some e
      | Some b \<Rightarrow>
          if entry_strength strength e < entry_strength strength b then Some b else Some e)"

definition resolveTrick :: "(card \<Rightarrow> nat) \<Rightarrow> trick_entry list \<Rightarrow> string option \<Rightarrow> int option" where
  "resolveTrick strength tr trump_suit' =
     (let trumps = filter (\<lambda>e. trump_suit' \<noteq> None \<and> entry_suit e = trump_suit') tr
      in if trumps \<noteq> [] then map_option fst (best_entry strength trumps)
         else (case tr of
                 [] \<Rightarrow> None
               | lead # _ \<Rightarrow>
                   map_option fst
                     (best_entry strength (filter (\<lambda>e. entry_suit e = entry_suit lead) tr))))"

text \<open>
  One order of the ranks, for the examples: seven lowest, ace highest. No example
  depends on it.
\<close>

definition rank_strength :: "card \<Rightarrow> nat" where
  "rank_strength c =
     (let r = butlast c
      in if r = ''7'' then 0 else if r = ''8'' then 1 else if r = ''9'' then 2
         else if r = ''T'' then 3 else if r = ''J'' then 4 else if r = ''Q'' then 5
         else if r = ''K'' then 6 else 7)"

subsection \<open>A recorded round, for the examples\<close>

text \<open>
  A round of two cards a seat. Seat 0 passes, seat 1 bids Sun, the contract is
  finalized with seat 1 as the floor taker, and two tricks are played. Seat 1 leads
  the ace of hearts to the first trick and nobody else holds a heart.
\<close>

definition ex_hands :: "int \<rightharpoonup> card list" where
  "ex_hands = [0 \<mapsto> [''7S'', ''8S''], 1 \<mapsto> [''AH'', ''7H''],
               2 \<mapsto> [''9D'', ''8D''], 3 \<mapsto> [''9C'', ''KC'']]"

definition ex_play :: "int \<Rightarrow> card \<Rightarrow> action" where
  "ex_play p c =
     \<lparr> action_type = ''PLAY_CARD'', player = Some p,
       payload = Some \<lparr> payload_mode = None, trump_suit = None, floor_taker = None,
                        payload_card = Some c \<rparr> \<rparr>"

definition ex_pass :: action where
  "ex_pass = \<lparr> action_type = ''PASS'', player = Some 0, payload = None \<rparr>"

definition ex_bid :: action where
  "ex_bid = \<lparr> action_type = ''BID_SUN'', player = Some 1, payload = None \<rparr>"

definition ex_finalize :: action where
  "ex_finalize =
     \<lparr> action_type = ''FINALIZE_CONTRACT'', player = None,
       payload = Some \<lparr> payload_mode = Some ''SUN'', trump_suit = None,
                        floor_taker = Some 1, payload_card = None \<rparr> \<rparr>"

definition ex_json :: round_json where
  "ex_json =
     \<lparr> start_phase = ''BIDDING'', meta_dealer = 3, current_player = Some 0,
       floor_card = Some ''QD'', hands_5 = ex_hands,
       actions = [ex_pass, ex_bid, ex_finalize,
                  ex_play 1 ''AH'', ex_play 2 ''9D'', ex_play 3 ''9C'', ex_play 0 ''7S'',
                  ex_play 1 ''7H'', ex_play 2 ''8D'', ex_play 3 ''KC'', ex_play 0 ''8S''] \<rparr>"

text \<open>The snapshot before the contract is finalized, and the one after.\<close>

definition ex_bidding :: game_state where
  "ex_bidding = buildInitialState ex_json"

definition ex_contract :: game_state where
  "ex_contract =
     ex_bidding\<lparr>phase := ''PLAYING'', mode := Some ''SUN'', trump := None,
                 currentPlayer := Some 1\<rparr>"

text \<open>The first trick with two cards on it, with three, then with four.\<close>

definition ex_two :: game_state where
  "ex_two =
     ex_contract\<lparr>hands := [0 \<mapsto> [''7S'', ''8S''], 1 \<mapsto> [''7H''], 2 \<mapsto> [''8D''], 3 \<mapsto> [''9C'', ''KC'']],
                  trick := [(1, Some ''AH''), (2, Some ''9D'')],
                  currentPlayer := Some 3\<rparr>"

definition ex_three :: game_state where
  "ex_three =
     ex_contract\<lparr>hands := [0 \<mapsto> [''7S'', ''8S''], 1 \<mapsto> [''7H''], 2 \<mapsto> [''8D''], 3 \<mapsto> [''KC'']],
                  trick := [(1, Some ''AH''), (2, Some ''9D''), (3, Some ''9C'')],
                  currentPlayer := Some 0\<rparr>"

definition ex_four :: game_state where
  "ex_four =
     ex_contract\<lparr>hands := [0 \<mapsto> [''8S''], 1 \<mapsto> [''7H''], 2 \<mapsto> [''8D''], 3 \<mapsto> [''KC'']],
                  trick := [(1, Some ''AH''), (2, Some ''9D''), (3, Some ''9C''), (0, Some ''7S'')],
                  trickComplete := True,
                  currentPlayer := Some 0\<rparr>"

text \<open>The second trick after its first card: the first trick is gone from the buffer.\<close>

definition ex_five :: game_state where
  "ex_five =
     ex_contract\<lparr>hands := [0 \<mapsto> [''8S''], 1 \<mapsto> [], 2 \<mapsto> [''8D''], 3 \<mapsto> [''KC'']],
                  trick := [(1, Some ''7H'')],
                  currentPlayer := Some 2\<rparr>"

text \<open>The second trick with three cards on it: seat 0 holds the last card of the round.\<close>

definition ex_last :: game_state where
  "ex_last =
     ex_contract\<lparr>hands := [0 \<mapsto> [''8S''], 1 \<mapsto> [], 2 \<mapsto> [], 3 \<mapsto> []],
                  trick := [(1, Some ''7H''), (2, Some ''8D''), (3, Some ''KC'')],
                  currentPlayer := Some 0\<rparr>"

definition ex_done :: game_state where
  "ex_done =
     ex_contract\<lparr>hands := [0 \<mapsto> [], 1 \<mapsto> [], 2 \<mapsto> [], 3 \<mapsto> []],
                  trick := [(1, Some ''7H''), (2, Some ''8D''), (3, Some ''KC''), (0, Some ''8S'')],
                  trickComplete := True,
                  currentPlayer := Some 0\<rparr>"

text \<open>A store that holds the snapshot \<open>ex_three\<close> at address 7.\<close>

definition ex_heap :: heap where
  "ex_heap =
     [Cards [''7S'', ''8S''], Cards [''7H''], Cards [''8D''], Cards [''KC''],
      Hands [(0, 0), (1, 1), (2, 2), (3, 3)],
      Entries [(1, Some ''AH''), (2, Some ''9D''), (3, Some ''9C'')],
      Counts [0 \<mapsto> 0, 1 \<mapsto> 0, 2 \<mapsto> 0, 3 \<mapsto> 0],
      Snapshot \<lparr> o_phase = ''PLAYING'', o_dealer = 3, o_currentPlayer = Some 0,
                 o_floorCard = Some ''QD'', o_hands = 4, o_trick = 5,
                 o_trickComplete = False, o_tricksWon = 6, o_mode = Some ''SUN'',
                 o_trump = None \<rparr>]"

section \<open>The steps of applyAction\<close>

lemmas step_defs = applyAction_def clearTrick_def finalizeContract_def playCard_def

lemmas ex_defs = ex_json_def ex_bidding_def ex_contract_def ex_two_def ex_three_def ex_four_def
  ex_five_def ex_last_def ex_done_def ex_hands_def ex_play_def ex_pass_def ex_bid_def
  ex_finalize_def buildInitialState_def

text \<open>On a dividend that is not negative, the remainder of JavaScript is \<open>mod\<close>.\<close>

lemma js_rem_nonneg: "0 \<le> a \<Longrightarrow> js_rem a 4 = a mod 4"
  by (cases "a = 0") (simp_all add: js_rem_def)

lemma hands_clearTrick [simp]: "hands (clearTrick s) = hands s"
  and tricksWon_clearTrick [simp]: "tricksWon (clearTrick s) = tricksWon s"
  and phase_clearTrick [simp]: "phase (clearTrick s) = phase s"
  and floorCard_clearTrick [simp]: "floorCard (clearTrick s) = floorCard s"
  and trickComplete_clearTrick [simp]: "\<not> trickComplete (clearTrick s)"
  by (simp_all add: clearTrick_def)

lemma clearTrick_complete:
  "trickComplete s \<Longrightarrow> clearTrick s = s\<lparr>trick := [], trickComplete := False\<rparr>"
  by (simp add: clearTrick_def)

lemma applyAction_clearTrick: "applyAction (clearTrick s) a = applyAction s a"
  by (simp add: applyAction_def clearTrick_def)

text \<open>A PLAY\_CARD skips the branch of the contract.\<close>

lemma applyAction_play:
  assumes "action_type a = ''PLAY_CARD''"
  shows "applyAction s a = playCard a (clearTrick s)"
  using assms by (simp add: applyAction_def finalizeContract_def)

lemma playCard_success:
  assumes "action_type a = ''PLAY_CARD''" and "payload a = Some pl" and "player a = Some p"
    and "hands s p = Some h"
  shows "playCard a s =
           Inr (s\<lparr>hands := (hands s)(p \<mapsto> filter (\<lambda>c. Some c \<noteq> payload_card pl) h),
                  trick := trick s @ [(p, payload_card pl)],
                  currentPlayer := Some (if length (trick s) = 3 then p else js_rem (p + 1) 4),
                  trickComplete := (length (trick s) = 3 \<or> trickComplete s)\<rparr>)"
  using assms by (simp add: playCard_def Let_def)

lemma playCard_Inr:
  assumes "action_type a = ''PLAY_CARD''" and "playCard a s = Inr s'"
  obtains pl p h where "payload a = Some pl" and "player a = Some p" and "hands s p = Some h"
  using assms by (auto simp: playCard_def split: option.splits)

text \<open>What a successful PLAY\_CARD returns, field by field.\<close>

lemma applyAction_play_Inr:
  assumes "action_type a = ''PLAY_CARD''" and "applyAction s a = Inr s'"
  obtains pl p h where "payload a = Some pl" and "player a = Some p"
    and "hands (clearTrick s) p = Some h"
    and "s' = (clearTrick s)
                \<lparr>hands := (hands (clearTrick s))(p \<mapsto> filter (\<lambda>c. Some c \<noteq> payload_card pl) h),
                 trick := trick (clearTrick s) @ [(p, payload_card pl)],
                 currentPlayer :=
                   Some (if length (trick (clearTrick s)) = 3 then p else js_rem (p + 1) 4),
                 trickComplete :=
                   (length (trick (clearTrick s)) = 3 \<or> trickComplete (clearTrick s))\<rparr>"
proof -
  from assms have r: "playCard a (clearTrick s) = Inr s'"
    by (simp add: applyAction_play)
  from assms(1) r obtain pl p h where f: "payload a = Some pl" "player a = Some p"
    "hands (clearTrick s) p = Some h"
    by (rule playCard_Inr)
  with assms(1) r that show thesis
    by (simp add: playCard_success)
qed

text \<open>An action that is not a PLAY\_CARD leaves the hands alone.\<close>

lemma hands_step_other:
  assumes "action_type a \<noteq> ''PLAY_CARD''" and "applyAction s a = Inr s'"
  shows "hands s' = hands s"
proof (cases "action_type a = ''FINALIZE_CONTRACT''")
  case True
  with assms show ?thesis
    by (cases "payload a") (auto simp: applyAction_def finalizeContract_def playCard_def)
next
  case False
  with assms show ?thesis
    by (auto simp: applyAction_def finalizeContract_def playCard_def)
qed

text \<open>The trick after a step: the buffer, cleared if it was complete, and the new entry.\<close>

lemma trick_after:
  assumes "applyAction s a = Inr s'"
  shows "trick s' = trick (clearTrick s) @ played_entry a"
  using assms
  by (auto simp: step_defs played_entry_def Let_def split: if_splits option.splits)

subsection \<open>The example round, step by step\<close>

lemma ex_bidding_contract: "applyAction ex_bidding ex_finalize = Inr ex_contract"
  by (simp add: ex_defs step_defs fun_eq_iff)

lemma ex_two_three: "applyAction ex_two (ex_play 3 ''9C'') = Inr ex_three"
  by (simp add: ex_defs step_defs js_rem_def fun_eq_iff)

lemma ex_three_four: "applyAction ex_three (ex_play 0 ''7S'') = Inr ex_four"
  by (simp add: ex_defs step_defs fun_eq_iff)

lemma ex_four_five: "applyAction ex_four (ex_play 1 ''7H'') = Inr ex_five"
  by (simp add: ex_defs step_defs js_rem_def fun_eq_iff)

lemma ex_last_done: "applyAction ex_last (ex_play 0 ''8S'') = Inr ex_done"
  by (simp add: ex_defs step_defs fun_eq_iff)

lemma ex_play_fields:
  "action_type (ex_play p c) = ''PLAY_CARD''" "player (ex_play p c) = Some p"
  "payload (ex_play p c) =
     Some \<lparr> payload_mode = None, trump_suit = None, floor_taker = None, payload_card = Some c \<rparr>"
  by (simp_all add: ex_play_def)

text \<open>The example snapshots are those of the replay of the example round.\<close>

lemma ex_replay:
  "computeStateAt ex_json 0 = Inr ex_bidding"
  "computeStateAt ex_json 3 = Inr ex_contract"
  "computeStateAt ex_json 5 = Inr ex_two"
  "computeStateAt ex_json 6 = Inr ex_three"
  "computeStateAt ex_json 7 = Inr ex_four"
  "computeStateAt ex_json 10 = Inr ex_last"
  "computeStateAt ex_json 11 = Inr ex_done"
  by (simp_all add: computeStateAt_def computeStateAt_loop.simps ex_defs step_defs js_rem_def
        fun_eq_iff)

text \<open>
  In the first trick of the example only seat 1 played the suit that was led, and the
  contract has no trump: seat 1 wins it under every order of the ranks.
\<close>

lemma ex_four_resolved: "resolveTrick strength (trick ex_four) (trump ex_four) = Some 1"
  by (simp add: ex_defs resolveTrick_def entry_suit_def suit_of_def)

section \<open>Replay\<close>

text \<open>
  The loop of \<open>computeStateAt\<close> from index \<open>i\<close> is the fold of \<open>applyAction\<close> over the
  actions from \<open>i\<close> up to \<open>step\<close>.
\<close>

lemma computeStateAt_loop_fold:
  assumes "i \<le> step" and "step \<le> length (actions json)"
  shows "computeStateAt_loop json step i st = applyAll st (take (step - i) (drop i (actions json)))"
  using assms
proof (induction json step i st rule: computeStateAt_loop.induct)
  case (1 json step i state)
  show ?case
  proof (cases "i < step")
    case False
    with "1.prems" show ?thesis
      by (simp add: computeStateAt_loop.simps)
  next
    case True
    with "1.prems" have il: "i < length (actions json)"
      by simp
    from True have "step - i = Suc (step - (i + 1))"
      by simp
    moreover from il have "drop i (actions json) = actions json ! i # drop (i + 1) (actions json)"
      by (simp add: Cons_nth_drop_Suc)
    ultimately have t: "take (step - i) (drop i (actions json)) =
        actions json ! i # take (step - (i + 1)) (drop (i + 1) (actions json))"
      by simp
    show ?thesis
    proof (cases "applyAction state (actions json ! i)")
      case (Inl e)
      with True il t show ?thesis
        by (simp add: computeStateAt_loop.simps [of json step i])
    next
      case (Inr st')
      from True il Inr "1.prems" have
        "computeStateAt_loop json step (i + 1) st' =
           applyAll st' (take (step - (i + 1)) (drop (i + 1) (actions json)))"
        by (intro "1.IH") simp_all
      with True il t Inr show ?thesis
        by (simp add: computeStateAt_loop.simps [of json step i])
    qed
  qed
qed

lemma computeStateAt_loop_beyond:
  assumes "length (actions json) < step" and "i \<le> length (actions json)"
  shows "computeStateAt_loop json step i st = Inl TypeError"
  using assms
proof (induction json step i st rule: computeStateAt_loop.induct)
  case (1 json step i state)
  show ?case
  proof (cases "i < length (actions json)")
    case False
    with "1.prems" have "i < step" and "\<not> i < length (actions json)"
      by simp_all
    then show ?thesis
      by (subst computeStateAt_loop.simps) simp
  next
    case True
    with "1.prems" have lt: "i < step"
      by simp
    show ?thesis
    proof (cases "applyAction state (actions json ! i)")
      case (Inl e)
      with True lt show ?thesis
        by (cases e) (simp add: computeStateAt_loop.simps [of json step i])
    next
      case (Inr st')
      from True lt Inr "1.prems" have "computeStateAt_loop json step (i + 1) st' = Inl TypeError"
        by (intro "1.IH") simp_all
      with True lt Inr show ?thesis
        by (simp add: computeStateAt_loop.simps [of json step i])
    qed
  qed
qed

lemma applyAll_append:
  "applyAll s (xs @ ys) = (case applyAll s xs of Inl e \<Rightarrow> Inl e | Inr s' \<Rightarrow> applyAll s' ys)"
  by (induction xs arbitrary: s) (auto split: sum.splits)

lemma applyAll_reachable:
  assumes "reachable json s" and "applyAll s log = Inr s'"
  shows "reachable json s'"
  using assms
proof (induction log arbitrary: s)
  case Nil
  then show ?case by simp
next
  case (Cons a log)
  then show ?case
    by (auto split: sum.splits intro: reachable.step)
qed

text \<open>Every reachable snapshot is the result of a log applied to the initial snapshot.\<close>

lemma reachable_applyAll:
  assumes "reachable json s"
  shows "\<exists>log. applyAll (buildInitialState json) log = Inr s"
  using assms
proof induction
  case initial
  have "applyAll (buildInitialState json) [] = Inr (buildInitialState json)"
    by simp
  then show ?case ..
next
  case (step s a s')
  then obtain log where "applyAll (buildInitialState json) log = Inr s"
    by blast
  with step.hyps(2) have "applyAll (buildInitialState json) (log @ [a]) = Inr s'"
    by (simp add: applyAll_append)
  then show ?case ..
qed

lemma computeStateAt_fold:
  "k \<le> length (actions json) \<Longrightarrow>
   computeStateAt json k = applyAll (buildInitialState json) (take k (actions json))"
  by (simp add: computeStateAt_def computeStateAt_loop_fold)

lemma computeStateAt_beyond:
  "length (actions json) < k \<Longrightarrow> computeStateAt json k = Inl TypeError"
  by (simp add: computeStateAt_def computeStateAt_loop_beyond)

lemma computeStateAt_reachable:
  assumes "computeStateAt json k = Inr s"
  shows "reachable json s"
proof (cases "k \<le> length (actions json)")
  case True
  with assms have "applyAll (buildInitialState json) (take k (actions json)) = Inr s"
    by (simp add: computeStateAt_fold)
  with reachable.initial show ?thesis
    by (rule applyAll_reachable)
next
  case False
  with assms show ?thesis
    by (simp add: computeStateAt_beyond)
qed

section \<open>The trick buffer\<close>

lemma trick_inv_step:
  assumes "trick_inv s" and "applyAction s a = Inr s'"
  shows "trick_inv s'"
  using assms
  by (auto simp: trick_inv_def step_defs Let_def split: if_splits option.splits)

lemma reachable_trick_inv: "reachable json s \<Longrightarrow> trick_inv s"
proof (induction rule: reachable.induct)
  case initial
  show ?case
    by (simp add: buildInitialState_def trick_inv_def)
next
  case (step s a s')
  then show ?case
    by (simp add: trick_inv_step)
qed

section \<open>The cards of the four hands\<close>

lemma distinct_concat_filter:
  "distinct (concat (map f xs)) \<Longrightarrow> distinct (concat (map (\<lambda>q. filter (P q) (f q)) xs))"
  by (induction xs) auto

lemma set_concat_filter:
  "set (concat (map (\<lambda>q. filter (P q) (f q)) xs)) \<subseteq> set (concat (map f xs))"
  by auto

text \<open>Every hand after a step is a filter of the hand before.\<close>

lemma hand_of_step:
  assumes "applyAction s a = Inr s'"
  obtains P where "hand_of s' = (\<lambda>q. filter (P q) (hand_of s q))"
proof (cases "action_type a = ''PLAY_CARD''")
  case False
  from False assms have "hands s' = hands s"
    by (rule hands_step_other)
  then have "hand_of s' = (\<lambda>q. filter (\<lambda>c. True) (hand_of s q))"
    by (simp add: hand_of_def fun_eq_iff)
  then show thesis
    by (rule that)
next
  case True
  from True assms obtain pl p h where "payload a = Some pl" and "player a = Some p"
    and h: "hands (clearTrick s) p = Some h" and
    "s' = (clearTrick s)
            \<lparr>hands := (hands (clearTrick s))(p \<mapsto> filter (\<lambda>c. Some c \<noteq> payload_card pl) h),
             trick := trick (clearTrick s) @ [(p, payload_card pl)],
             currentPlayer :=
               Some (if length (trick (clearTrick s)) = 3 then p else js_rem (p + 1) 4),
             trickComplete :=
               (length (trick (clearTrick s)) = 3 \<or> trickComplete (clearTrick s))\<rparr>"
    by (rule applyAction_play_Inr)
  then have "hands s' = (hands s)(p \<mapsto> filter (\<lambda>c. Some c \<noteq> payload_card pl) h)"
    by simp
  with h have "hand_of s' =
      (\<lambda>q. filter (\<lambda>c. q = p \<longrightarrow> Some c \<noteq> payload_card pl) (hand_of s q))"
    by (simp add: hand_of_def fun_eq_iff)
  then show thesis
    by (rule that)
qed

lemma all_cards_step:
  assumes "applyAction s a = Inr s'" and "distinct (all_cards s)"
  shows "distinct (all_cards s')" and "set (all_cards s') \<subseteq> set (all_cards s)"
proof -
  from assms(1) obtain P where P: "hand_of s' = (\<lambda>q. filter (P q) (hand_of s q))"
    by (rule hand_of_step)
  have eq: "all_cards s' = concat (map (\<lambda>q. filter (P q) (hand_of s q)) seats)"
    by (simp add: all_cards_def P)
  from assms(2) have "distinct (concat (map (hand_of s) seats))"
    by (simp add: all_cards_def)
  then have "distinct (concat (map (\<lambda>q. filter (P q) (hand_of s q)) seats))"
    by (rule distinct_concat_filter)
  then show "distinct (all_cards s')"
    by (simp only: eq)
  have "set (concat (map (\<lambda>q. filter (P q) (hand_of s q)) seats))
          \<subseteq> set (concat (map (hand_of s) seats))"
    by (rule set_concat_filter)
  then have "set (all_cards s') \<subseteq> set (concat (map (hand_of s) seats))"
    by (simp only: eq)
  then show "set (all_cards s') \<subseteq> set (all_cards s)"
    by (simp only: all_cards_def)
qed

lemma distinct_concat_disjoint:
  assumes "distinct (concat (map f xs))" and "p \<in> set xs" and "q \<in> set xs" and "q \<noteq> p"
    and "c \<in> set (f p)"
  shows "c \<notin> set (f q)"
  using assms by (induction xs) auto

lemma filter_absent: "c \<notin> set xs \<Longrightarrow> filter (\<lambda>x. x \<noteq> c) xs = xs"
  by (induction xs) auto

lemma mset_filter_out:
  assumes "distinct xs" and "c \<in> set xs"
  shows "mset (filter (\<lambda>x. x \<noteq> c) xs) + {#c#} = mset xs"
  using assms
proof (induction xs)
  case Nil
  then show ?case by simp
next
  case (Cons x xs)
  show ?case
  proof (cases "x = c")
    case True
    with Cons.prems have "c \<notin> set xs"
      by simp
    then have "filter (\<lambda>x. x \<noteq> c) xs = xs"
      by (rule filter_absent)
    with True show ?thesis
      by simp
  next
    case False
    with Cons show ?thesis
      by simp
  qed
qed

lemma filter_concat_map:
  "filter P (concat (map f xs)) = concat (map (\<lambda>q. filter P (f q)) xs)"
  by (induction xs) simp_all

text \<open>A held card leaves the four hands, once.\<close>

lemma held_play_step:
  assumes d: "distinct (all_cards s)" and t: "action_type a = ''PLAY_CARD''"
    and held: "plays_held_card s a" and r: "applyAction s a = Inr s'"
  shows "mset (all_cards s') + mset (action_card a) = mset (all_cards s)"
proof -
  from t r obtain pl p h where pl: "payload a = Some pl" and p: "player a = Some p"
    and h: "hands (clearTrick s) p = Some h" and
    s': "s' = (clearTrick s)
            \<lparr>hands := (hands (clearTrick s))(p \<mapsto> filter (\<lambda>c. Some c \<noteq> payload_card pl) h),
             trick := trick (clearTrick s) @ [(p, payload_card pl)],
             currentPlayer :=
               Some (if length (trick (clearTrick s)) = 3 then p else js_rem (p + 1) 4),
             trickComplete :=
               (length (trick (clearTrick s)) = 3 \<or> trickComplete (clearTrick s))\<rparr>"
    by (rule applyAction_play_Inr)
  from held pl p h obtain c where c: "payload_card pl = Some c" and seat: "p \<in> set seats"
    and inh: "c \<in> set h"
    by (auto simp: plays_held_card_def split: option.splits)
  from h have hp: "hand_of s p = h"
    by (simp add: hand_of_def)
  from s' have "hands s' = (hands s)(p \<mapsto> filter (\<lambda>x. Some x \<noteq> payload_card pl) h)"
    by simp
  with h c have hs': "hand_of s' = (\<lambda>q. if q = p then filter (\<lambda>x. x \<noteq> c) h else hand_of s q)"
    by (simp add: hand_of_def fun_eq_iff)
  have "hand_of s' q = filter (\<lambda>x. x \<noteq> c) (hand_of s q)" if "q \<in> set seats" for q
  proof (cases "q = p")
    case True
    with hs' hp show ?thesis by simp
  next
    case False
    from d have "distinct (concat (map (hand_of s) seats))"
      by (simp add: all_cards_def)
    from this seat that False have "c \<notin> set (hand_of s q)"
      by (rule distinct_concat_disjoint) (simp add: hp inh)
    then have "filter (\<lambda>x. x \<noteq> c) (hand_of s q) = hand_of s q"
      by (rule filter_absent)
    with False hs' show ?thesis by simp
  qed
  then have "all_cards s' = filter (\<lambda>x. x \<noteq> c) (all_cards s)"
    by (simp add: all_cards_def filter_concat_map cong: map_cong)
  moreover from seat inh hp have "c \<in> set (all_cards s)"
    by (auto simp: all_cards_def)
  moreover from t pl c have "action_card a = [c]"
    by (simp add: action_card_def)
  ultimately show ?thesis
    using mset_filter_out [OF d, of c] by simp
qed

lemma other_step_cards:
  assumes "action_type a \<noteq> ''PLAY_CARD''" and "applyAction s a = Inr s'"
  shows "all_cards s' = all_cards s" and "action_card a = []"
proof -
  from assms have "hands s' = hands s"
    by (rule hands_step_other)
  then have "hand_of s' = hand_of s"
    by (simp add: hand_of_def fun_eq_iff)
  then show "all_cards s' = all_cards s"
    by (simp add: all_cards_def)
  from assms(1) show "action_card a = []"
    by (simp add: action_card_def)
qed

lemma held_log_conserves:
  assumes "distinct (all_cards s)" and "held_log s log" and "applyAll s log = Inr s'"
  shows "distinct (all_cards s') \<and>
         mset (all_cards s') + mset (played_cards log) = mset (all_cards s)"
  using assms
proof (induction log arbitrary: s)
  case Nil
  then show ?case
    by (simp add: played_cards_def)
next
  case (Cons a log)
  from Cons.prems(3) obtain s1 where r: "applyAction s a = Inr s1"
    and rest: "applyAll s1 log = Inr s'"
    by (auto split: sum.splits)
  from r Cons.prems(1) have d1: "distinct (all_cards s1)"
    by (rule all_cards_step)
  from Cons.prems(2) r have hl: "held_log s1 log"
    by simp
  from d1 hl rest have IH: "distinct (all_cards s') \<and>
      mset (all_cards s') + mset (played_cards log) = mset (all_cards s1)"
    by (rule Cons.IH)
  have one: "mset (all_cards s1) + mset (action_card a) = mset (all_cards s)"
  proof (cases "action_type a = ''PLAY_CARD''")
    case True
    with Cons.prems(2) have "plays_held_card s a"
      by simp
    with Cons.prems(1) True show ?thesis
      using r by (rule held_play_step)
  next
    case False
    from other_step_cards [OF False r] show ?thesis
      by simp
  qed
  have "played_cards (a # log) = action_card a @ played_cards log"
    by (simp add: played_cards_def)
  with IH one show ?case
    by (simp add: ac_simps)
qed


lemma ex_log_ten:
  "applyAll ex_bidding (take 10 (actions ex_json)) = Inr ex_last"
  using ex_replay(6) by (simp add: computeStateAt_fold ex_json_def ex_bidding_def)

lemma ex_held_ten: "held_log ex_bidding (take 10 (actions ex_json))"
  by (simp add: ex_defs step_defs js_rem_def plays_held_card_def seats_def)

section \<open>The store\<close>

text \<open>
  \<open>applyAction_h\<close> refines \<open>applyAction\<close>: on a store that holds the snapshot \<open>st\<close> at
  the address it is given, it returns what \<open>applyAction st\<close> returns, at a new address,
  and the store it leaves is the store it was given with new objects appended.
\<close>

subsection \<open>Reading and writing\<close>

lemma lookup_append [simp]: "a < length h \<Longrightarrow> lookup (h @ ext) a = lookup h a"
  by (simp add: lookup_def nth_append)

lemma lookup_append_Some: "lookup h a = Some x \<Longrightarrow> lookup (h @ ext) a = Some x"
  by (simp add: lookup_def nth_append split: if_splits)

lemma lookup_new [simp]: "lookup (h @ [ob]) (length h) = Some ob"
  by (simp add: lookup_def)

lemma lookup_update:
  "lookup (h[i := x]) a = (if a = i \<and> i < length h then Some x else lookup h a)"
  by (simp add: lookup_def)

lemma lookup_less: "lookup h a = Some x \<Longrightarrow> a < length h"
  by (simp add: lookup_def split: if_splits)

lemma same_below_refl: "n \<le> length h \<Longrightarrow> same_below n h h"
  by (simp add: same_below_def)

lemma same_below_trans: "same_below n h h1 \<Longrightarrow> same_below n h1 h2 \<Longrightarrow> same_below n h h2"
  by (simp add: same_below_def)

lemma same_below_append: "n \<le> length h \<Longrightarrow> same_below n h (h @ ext)"
  by (simp add: same_below_def)

lemma same_below_update: "n \<le> length h \<Longrightarrow> n \<le> i \<Longrightarrow> same_below n h (h[i := x])"
  by (simp add: same_below_def)

lemma same_below_extends:
  assumes "same_below (length h) h h'"
  shows "\<exists>ext. h' = h @ ext"
proof -
  from assms have "take (length h) h' = h"
    by (simp add: same_below_def)
  then have "h' = h @ drop (length h) h'"
    by (metis append_take_drop_id)
  then show ?thesis ..
qed

lemma read_hands_append:
  "read_hands h kvs = Some m \<Longrightarrow> read_hands (h @ ext) kvs = Some m"
proof (induction kvs arbitrary: m)
  case Nil
  then show ?case by simp
next
  case (Cons kv kvs)
  obtain k a where kv: "kv = (k, a)"
    by (cases kv)
  from Cons.prems kv obtain cs m' where a: "lookup h a = Some (Cards cs)"
    and m': "read_hands h kvs = Some m'" and m: "m = m'(k \<mapsto> cs)"
    by (auto split: option.splits obj.splits)
  from m' have "read_hands (h @ ext) kvs = Some m'"
    by (rule Cons.IH)
  with a kv m show ?case
    by (simp add: lookup_append_Some fun_eq_iff)
qed

lemma read_hands_store:
  assumes "read_hands h kvs = Some m" and "lookup h i = Some ob" and "\<And>cs. ob \<noteq> Cards cs"
  shows "read_hands (h[i := x]) kvs = Some m"
  using assms(1)
proof (induction kvs arbitrary: m)
  case Nil
  then show ?case by simp
next
  case (Cons kv kvs)
  obtain k a where kv: "kv = (k, a)"
    by (cases kv)
  from Cons.prems kv obtain cs m' where a: "lookup h a = Some (Cards cs)"
    and m': "read_hands h kvs = Some m'" and m: "m = m'(k \<mapsto> cs)"
    by (auto split: option.splits obj.splits)
  from a assms(2,3) have "a \<noteq> i"
    by auto
  with a have "lookup (h[i := x]) a = Some (Cards cs)"
    by (simp add: lookup_update)
  moreover from m' have "read_hands (h[i := x]) kvs = Some m'"
    by (rule Cons.IH)
  ultimately show ?case
    using kv m by (simp add: fun_eq_iff)
qed

lemma read_hands_update:
  assumes "read_hands h kvs = Some m" and "lookup h na = Some (Cards cs')"
    and "map_of kvs p = Some ca"
  shows "read_hands h (AList.update p na kvs) = Some (m(p \<mapsto> cs'))"
  using assms(1,3)
proof (induction kvs arbitrary: m)
  case Nil
  then show ?case by simp
next
  case (Cons kv kvs)
  obtain k a where kv: "kv = (k, a)"
    by (cases kv)
  from Cons.prems(1) kv obtain cs m' where a: "lookup h a = Some (Cards cs)"
    and m': "read_hands h kvs = Some m'" and m: "m = m'(k \<mapsto> cs)"
    by (auto split: option.splits obj.splits)
  show ?case
  proof (cases "k = p")
    case True
    with kv m m' assms(2) show ?thesis
      by (simp add: fun_eq_iff)
  next
    case False
    with Cons.prems(2) kv have "map_of kvs p = Some ca"
      by simp
    with m' have "read_hands h (AList.update p na kvs) = Some (m'(p \<mapsto> cs'))"
      by (rule Cons.IH)
    with False kv m a show ?thesis
      by (auto simp: fun_eq_iff)
  qed
qed

lemma read_snapshot_iff:
  "read_snapshot h s = Some st \<longleftrightarrow>
     (\<exists>ob kvs es w m. lookup h s = Some (Snapshot ob) \<and>
        lookup h (o_hands ob) = Some (Hands kvs) \<and>
        lookup h (o_trick ob) = Some (Entries es) \<and>
        lookup h (o_tricksWon ob) = Some (Counts w) \<and>
        read_hands h kvs = Some m \<and> st = snapshot_of ob m es w)"
  by (auto simp: read_snapshot_def split: option.splits obj.splits)

lemma read_snapshotI:
  assumes "lookup h s = Some (Snapshot ob)" and "lookup h (o_hands ob) = Some (Hands kvs)"
    and "lookup h (o_trick ob) = Some (Entries es)"
    and "lookup h (o_tricksWon ob) = Some (Counts w)" and "read_hands h kvs = Some m"
  shows "read_snapshot h s = Some (snapshot_of ob m es w)"
  using assms by (auto simp: read_snapshot_iff)

lemma read_snapshotE:
  assumes "read_snapshot h s = Some st"
  obtains ob kvs es w m where "lookup h s = Some (Snapshot ob)"
    and "lookup h (o_hands ob) = Some (Hands kvs)"
    and "lookup h (o_trick ob) = Some (Entries es)"
    and "lookup h (o_tricksWon ob) = Some (Counts w)"
    and "read_hands h kvs = Some m" and "st = snapshot_of ob m es w"
  using assms unfolding read_snapshot_iff by blast

lemma lookup_append_ge:
  "length h \<le> a \<Longrightarrow> lookup (h @ ext) a = lookup ext (a - length h)"
  by (auto simp: lookup_def nth_append)

lemma lookup_Cons_0 [simp]: "lookup (x # xs) 0 = Some x"
  by (simp add: lookup_def)

lemma lookup_Cons_Suc [simp]: "lookup (x # xs) (Suc n) = lookup xs n"
  by (simp add: lookup_def)

lemma clone_hands_reads:
  assumes "read_hands h kvs = Some m"
  shows "\<exists>ext kvs'. clone_hands h kvs = Some (h @ ext, kvs') \<and>
                    read_hands (h @ ext) kvs' = Some m"
  using assms
proof (induction kvs arbitrary: h m)
  case Nil
  then have "clone_hands h [] = Some (h @ [], []) \<and> read_hands (h @ []) [] = Some m"
    by simp
  then show ?case by blast
next
  case (Cons kv kvs)
  obtain k a where kv: "kv = (k, a)"
    by (cases kv)
  from Cons.prems kv obtain cs m' where a: "lookup h a = Some (Cards cs)"
    and m': "read_hands h kvs = Some m'" and m: "m = m'(k \<mapsto> cs)"
    by (auto split: option.splits obj.splits)
  from m' have "read_hands (h @ [Cards cs]) kvs = Some m'"
    by (rule read_hands_append)
  then obtain ext kvs' where c: "clone_hands (h @ [Cards cs]) kvs = Some ((h @ [Cards cs]) @ ext, kvs')"
    and r: "read_hands ((h @ [Cards cs]) @ ext) kvs' = Some m'"
    using Cons.IH by blast
  have "lookup ((h @ [Cards cs]) @ ext) (length h) = Some (Cards cs)"
    by (simp add: lookup_append_ge)
  with r m have "read_hands (h @ (Cards cs # ext)) ((k, length h) # kvs') = Some m"
    by (simp add: fun_eq_iff)
  moreover from a c kv have "clone_hands h (kv # kvs) = Some (h @ (Cards cs # ext), (k, length h) # kvs')"
    by (simp add: alloc_def)
  ultimately show ?case by blast
qed

lemma structuredClone_reads:
  assumes "read_snapshot h r = Some st"
  shows "\<exists>ext s. structuredClone h r = Some (h @ ext, s) \<and>
                read_snapshot (h @ ext) s = Some st \<and> owned (length h) (h @ ext) s"
proof -
  from assms obtain ob kvs es w m where ob: "lookup h r = Some (Snapshot ob)"
    and kvs: "lookup h (o_hands ob) = Some (Hands kvs)"
    and es: "lookup h (o_trick ob) = Some (Entries es)"
    and w: "lookup h (o_tricksWon ob) = Some (Counts w)"
    and m: "read_hands h kvs = Some m" and st: "st = snapshot_of ob m es w"
    by (rule read_snapshotE)
  from m obtain ext kvs' where c: "clone_hands h kvs = Some (h @ ext, kvs')"
    and r: "read_hands (h @ ext) kvs' = Some m"
    using clone_hands_reads by blast
  let ?n = "length h + length ext"
  let ?ob = "ob\<lparr>o_hands := ?n, o_trick := ?n + 1, o_tricksWon := ?n + 2\<rparr>"
  let ?ext = "ext @ [Hands kvs', Entries es, Counts w, Snapshot ?ob]"
  from ob kvs es w c have sc: "structuredClone h r = Some (h @ ?ext, ?n + 3)"
    by (simp add: structuredClone_def alloc_def)
  have l: "lookup (h @ ?ext) (?n + 3) = Some (Snapshot ?ob)"
    "lookup (h @ ?ext) ?n = Some (Hands kvs')"
    "lookup (h @ ?ext) (?n + 1) = Some (Entries es)"
    "lookup (h @ ?ext) (?n + 2) = Some (Counts w)"
    by (simp_all add: lookup_append_ge eval_nat_numeral)
  from r have "read_hands ((h @ ext) @ [Hands kvs', Entries es, Counts w, Snapshot ?ob]) kvs' = Some m"
    by (rule read_hands_append)
  then have rh: "read_hands (h @ ?ext) kvs' = Some m"
    by simp
  have "read_snapshot (h @ ?ext) (?n + 3) = Some (snapshot_of ?ob m es w)"
  proof (rule read_snapshotI [where kvs = kvs'])
    show "lookup (h @ ?ext) (?n + 3) = Some (Snapshot ?ob)"
      by (rule l(1))
    show "lookup (h @ ?ext) (o_hands ?ob) = Some (Hands kvs')"
      using l(2) by simp
    show "lookup (h @ ?ext) (o_trick ?ob) = Some (Entries es)"
      using l(3) by simp
    show "lookup (h @ ?ext) (o_tricksWon ?ob) = Some (Counts w)"
      using l(4) by simp
    show "read_hands (h @ ?ext) kvs' = Some m"
      by (rule rh)
  qed
  moreover have "snapshot_of ?ob m es w = st"
    by (simp add: st snapshot_of_def)
  moreover have "owned (length h) (h @ ?ext) (?n + 3)"
    unfolding owned_def l(1) by simp
  ultimately show ?thesis
    using sc by metis
qed

lemma read_hands_key:
  assumes "read_hands h kvs = Some m"
  shows "map_of kvs p = None \<Longrightarrow> m p = None"
    and "map_of kvs p = Some ca \<Longrightarrow> \<exists>cs. lookup h ca = Some (Cards cs) \<and> m p = Some cs"
  using assms
proof (induction kvs arbitrary: m)
  case Nil
  {
    case 1
    then show ?case by auto
  next
    case 2
    then show ?case by simp
  }
next
  case (Cons kv kvs)
  obtain k a where kv: "kv = (k, a)"
    by (cases kv)
  {
    case 1
    from "1.prems"(2) kv obtain cs m' where a: "lookup h a = Some (Cards cs)"
      and m': "read_hands h kvs = Some m'" and m: "m = m'(k \<mapsto> cs)"
      by (auto split: option.splits obj.splits)
    from "1.prems"(1) kv have "k \<noteq> p" and "map_of kvs p = None"
      by (auto split: if_splits)
    with Cons.IH(1) m' m show ?case
      by simp
  next
    case 2
    from "2.prems"(2) kv obtain cs m' where a: "lookup h a = Some (Cards cs)"
      and m': "read_hands h kvs = Some m'" and m: "m = m'(k \<mapsto> cs)"
      by (auto split: option.splits obj.splits)
    show ?case
    proof (cases "k = p")
      case True
      with "2.prems"(1) kv a m show ?thesis
        by simp
    next
      case False
      with "2.prems"(1) kv have "map_of kvs p = Some ca"
        by simp
      with Cons.IH(2) m' have "\<exists>cs. lookup h ca = Some (Cards cs) \<and> m' p = Some cs"
        by blast
      with False m show ?thesis
        by simp
    qed
  }
qed

lemma read_snapshot_append:
  assumes "read_snapshot h r = Some st"
  shows "read_snapshot (h @ ext) r = Some st"
proof -
  from assms obtain ob kvs es w m where "lookup h r = Some (Snapshot ob)"
    and "lookup h (o_hands ob) = Some (Hands kvs)"
    and "lookup h (o_trick ob) = Some (Entries es)"
    and "lookup h (o_tricksWon ob) = Some (Counts w)"
    and "read_hands h kvs = Some m" and st: "st = snapshot_of ob m es w"
    by (rule read_snapshotE)
  then have "read_snapshot (h @ ext) r = Some (snapshot_of ob m es w)"
    by (intro read_snapshotI lookup_append_Some read_hands_append)
  with st show ?thesis
    by simp
qed

text \<open>Writing the snapshot object leaves the objects it points to as they were.\<close>

lemma store_snapshot:
  assumes "lookup h s = Some (Snapshot ob)"
    and "lookup h (o_hands ob') = Some (Hands kvs)"
    and "lookup h (o_trick ob') = Some (Entries es)"
    and "lookup h (o_tricksWon ob') = Some (Counts w)"
    and "read_hands h kvs = Some m"
  shows "read_snapshot (h[s := Snapshot ob']) s = Some (snapshot_of ob' m es w)"
proof (rule read_snapshotI)
  from assms(1) have "s < length h"
    by (rule lookup_less)
  then show "lookup (h[s := Snapshot ob']) s = Some (Snapshot ob')"
    by (simp add: lookup_update)
  from assms(1,2) have "o_hands ob' \<noteq> s"
    by auto
  with assms(2) show "lookup (h[s := Snapshot ob']) (o_hands ob') = Some (Hands kvs)"
    by (simp add: lookup_update)
  from assms(1,3) have "o_trick ob' \<noteq> s"
    by auto
  with assms(3) show "lookup (h[s := Snapshot ob']) (o_trick ob') = Some (Entries es)"
    by (simp add: lookup_update)
  from assms(1,4) have "o_tricksWon ob' \<noteq> s"
    by auto
  with assms(4) show "lookup (h[s := Snapshot ob']) (o_tricksWon ob') = Some (Counts w)"
    by (simp add: lookup_update)
  from assms(5,1) show "read_hands (h[s := Snapshot ob']) kvs = Some m"
    by (rule read_hands_store) simp
qed

lemma owned_store:
  assumes "lookup h s = Some (Snapshot ob)" and "n \<le> s" and "n \<le> o_hands ob'"
    and "n \<le> o_trick ob'"
  shows "owned n (h[s := Snapshot ob']) s"
proof -
  from assms(1) have "s < length h"
    by (rule lookup_less)
  then have "lookup (h[s := Snapshot ob']) s = Some (Snapshot ob')"
    by (simp add: lookup_update)
  with assms(2-4) show ?thesis
    by (simp add: owned_def)
qed

lemma ownedE:
  assumes "owned n h s"
  obtains ob where "lookup h s = Some (Snapshot ob)" and "n \<le> s" and "n \<le> o_hands ob"
    and "n \<le> o_trick ob"
  using assms by (auto simp: owned_def split: option.splits obj.splits)

subsection \<open>The steps on the clone\<close>

lemma clearTrick_h_sim:
  assumes r: "read_snapshot h s = Some st" and o: "owned n h s" and n: "n \<le> length h"
  shows "\<exists>h'. clearTrick_h h s = Some h' \<and> read_snapshot h' s = Some (clearTrick st) \<and>
              owned n h' s \<and> same_below n h h'"
proof -
  from r obtain ob kvs es w m where ob: "lookup h s = Some (Snapshot ob)"
    and kvs: "lookup h (o_hands ob) = Some (Hands kvs)"
    and es: "lookup h (o_trick ob) = Some (Entries es)"
    and w: "lookup h (o_tricksWon ob) = Some (Counts w)"
    and m: "read_hands h kvs = Some m" and st: "st = snapshot_of ob m es w"
    by (rule read_snapshotE)
  from o ob have ge: "n \<le> s" "n \<le> o_hands ob" "n \<le> o_trick ob"
    by (auto elim: ownedE)
  show ?thesis
  proof (cases "o_trickComplete ob")
    case False
    with ob have "clearTrick_h h s = Some h"
      by (simp add: clearTrick_h_def)
    moreover from False st have "clearTrick st = st"
      by (simp add: clearTrick_def snapshot_of_def)
    ultimately show ?thesis
      using r o n by (simp add: same_below_refl)
  next
    case True
    let ?ob = "ob\<lparr>o_trick := length h, o_trickComplete := False\<rparr>"
    let ?h1 = "h @ [Entries []]"
    let ?h' = "?h1[s := Snapshot ?ob]"
    from True ob have c: "clearTrick_h h s = Some ?h'"
      by (simp add: clearTrick_h_def alloc_def)
    have "read_snapshot ?h' s = Some (snapshot_of ?ob m [] w)"
    proof (rule store_snapshot)
      from ob show "lookup ?h1 s = Some (Snapshot ob)"
        by (rule lookup_append_Some)
      from kvs show "lookup ?h1 (o_hands ?ob) = Some (Hands kvs)"
        by (simp add: lookup_append_Some)
      show "lookup ?h1 (o_trick ?ob) = Some (Entries [])"
        by simp
      from w show "lookup ?h1 (o_tricksWon ?ob) = Some (Counts w)"
        by (simp add: lookup_append_Some)
      from m show "read_hands ?h1 kvs = Some m"
        by (rule read_hands_append)
    qed
    moreover from True st have "snapshot_of ?ob m [] w = clearTrick st"
      by (simp add: clearTrick_def snapshot_of_def)
    moreover have "owned n ?h' s"
    proof (rule owned_store)
      from ob show "lookup ?h1 s = Some (Snapshot ob)"
        by (rule lookup_append_Some)
    qed (use ge n in simp_all)
    moreover have "same_below n h ?h'"
    proof (rule same_below_trans)
      from n show "same_below n h ?h1"
        by (rule same_below_append)
      from n ge(1) show "same_below n ?h1 ?h'"
        by (intro same_below_update) simp_all
    qed
    ultimately show ?thesis
      using c by simp
  qed
qed

lemma finalizeContract_h_sim:
  assumes r: "read_snapshot h s = Some st" and o: "owned n h s" and n: "n \<le> length h"
  shows "case finalizeContract a st of
           Inl e \<Rightarrow> finalizeContract_h a h s = Some (Inl e)
         | Inr st' \<Rightarrow>
             (\<exists>h'. finalizeContract_h a h s = Some (Inr h') \<and> read_snapshot h' s = Some st' \<and>
                   owned n h' s \<and> same_below n h h')"
proof -
  from r obtain ob kvs es w m where ob: "lookup h s = Some (Snapshot ob)"
    and kvs: "lookup h (o_hands ob) = Some (Hands kvs)"
    and es: "lookup h (o_trick ob) = Some (Entries es)"
    and w: "lookup h (o_tricksWon ob) = Some (Counts w)"
    and m: "read_hands h kvs = Some m" and st: "st = snapshot_of ob m es w"
    by (rule read_snapshotE)
  from o ob have ge: "n \<le> s" "n \<le> o_hands ob" "n \<le> o_trick ob"
    by (auto elim: ownedE)
  show ?thesis
  proof (cases "action_type a = ''FINALIZE_CONTRACT''")
    case False
    with r o n show ?thesis
      by (simp add: finalizeContract_def finalizeContract_h_def same_below_refl)
  next
    case True
    show ?thesis
    proof (cases "payload a")
      case None
      with True ob show ?thesis
        by (simp add: finalizeContract_def finalizeContract_h_def)
    next
      case (Some pl)
      let ?ob = "ob\<lparr>o_phase := ''PLAYING'', o_mode := payload_mode pl,
                    o_trump := trump_suit pl, o_currentPlayer := floor_taker pl\<rparr>"
      let ?h' = "h[s := Snapshot ?ob]"
      from True Some ob have c: "finalizeContract_h a h s = Some (Inr ?h')"
        by (simp add: finalizeContract_h_def)
      from ob kvs es w m have "read_snapshot ?h' s = Some (snapshot_of ?ob m es w)"
        by (intro store_snapshot) simp_all
      moreover from True Some st have "finalizeContract a st = Inr (snapshot_of ?ob m es w)"
        by (simp add: finalizeContract_def snapshot_of_def)
      moreover from ob ge have "owned n ?h' s"
        by (intro owned_store) simp_all
      moreover from n ge(1) have "same_below n h ?h'"
        by (rule same_below_update)
      ultimately show ?thesis
        using c by simp
    qed
  qed
qed

lemma playCard_h_sim:
  assumes r: "read_snapshot h s = Some st" and o: "owned n h s" and n: "n \<le> length h"
  shows "case playCard a st of
           Inl e \<Rightarrow> playCard_h a h s = Some (Inl e)
         | Inr st' \<Rightarrow>
             (\<exists>h'. playCard_h a h s = Some (Inr h') \<and> read_snapshot h' s = Some st' \<and>
                   owned n h' s \<and> same_below n h h')"
proof -
  from r obtain ob kvs es w m where ob: "lookup h s = Some (Snapshot ob)"
    and kvs: "lookup h (o_hands ob) = Some (Hands kvs)"
    and es: "lookup h (o_trick ob) = Some (Entries es)"
    and w: "lookup h (o_tricksWon ob) = Some (Counts w)"
    and m: "read_hands h kvs = Some m" and st: "st = snapshot_of ob m es w"
    by (rule read_snapshotE)
  from o ob have ge: "n \<le> s" "n \<le> o_hands ob" "n \<le> o_trick ob"
    by (auto elim: ownedE)
  from st have hm: "hands st = m" and tr: "trick st = es"
    by (simp_all add: snapshot_of_def)
  show ?thesis
  proof (cases "action_type a = ''PLAY_CARD''")
    case False
    with r o n show ?thesis
      by (simp add: playCard_def playCard_h_def same_below_refl)
  next
    case play: True
    show ?thesis
    proof (cases "payload a")
      case None
      with play ob show ?thesis
        by (simp add: playCard_def playCard_h_def)
    next
      case pl: (Some pl)
      show ?thesis
      proof (cases "player a")
        case None
        with play pl ob show ?thesis
          by (simp add: playCard_def playCard_h_def)
      next
        case p: (Some p)
        show ?thesis
        proof (cases "map_of kvs p")
          case None
          with m have "m p = None"
            by (rule read_hands_key(1))
          with play pl p ob kvs None hm show ?thesis
            by (simp add: playCard_def playCard_h_def)
        next
          case ca: (Some ca)
          with m obtain cs where cs: "lookup h ca = Some (Cards cs)" and mp: "m p = Some cs"
            using read_hands_key(2) by blast
          let ?card = "payload_card pl"
          let ?f = "filter (\<lambda>c. Some c \<noteq> ?card) cs"
          let ?kvs = "AList.update p (length h) kvs"
          let ?es = "es @ [(p, ?card)]"
          let ?ob = "if length ?es = 4
                     then ob\<lparr>o_currentPlayer := Some p, o_trickComplete := True\<rparr>
                     else ob\<lparr>o_currentPlayer := Some (js_rem (p + 1) 4)\<rparr>"
          let ?h1 = "h @ [Cards ?f]"
          let ?h2 = "?h1[o_hands ob := Hands ?kvs]"
          let ?h3 = "?h2[o_trick ob := Entries ?es]"
          let ?h' = "?h3[s := Snapshot ?ob]"
          have ne: "o_hands ob \<noteq> o_trick ob" "o_hands ob \<noteq> s" "o_trick ob \<noteq> s"
            "o_tricksWon ob \<noteq> o_hands ob" "o_tricksWon ob \<noteq> o_trick ob"
            using ob kvs es w by auto
          have lt: "s < length h" "o_hands ob < length h" "o_trick ob < length h"
            "o_tricksWon ob < length h"
            using ob kvs es w by (auto dest: lookup_less)
          have l2: "lookup ?h2 (o_trick ob) = Some (Entries es)"
            using es ne lt by (simp add: lookup_update)
          from play pl p ob kvs ca cs l2 have c: "playCard_h a h s = Some (Inr ?h')"
            by (simp add: playCard_h_def alloc_def Let_def)
          have l3: "lookup ?h3 s = Some (Snapshot ob)"
            "lookup ?h3 (o_hands ob) = Some (Hands ?kvs)"
            "lookup ?h3 (o_trick ob) = Some (Entries ?es)"
            "lookup ?h3 (o_tricksWon ob) = Some (Counts w)"
            using ob kvs es w ne lt by (simp_all add: lookup_update)
          from m have "read_hands ?h1 kvs = Some m"
            by (rule read_hands_append)
          moreover have "lookup ?h1 (length h) = Some (Cards ?f)"
            by simp
          moreover note ca
          ultimately have "read_hands ?h1 ?kvs = Some (m(p \<mapsto> ?f))"
            by (rule read_hands_update)
          moreover from kvs have "lookup ?h1 (o_hands ob) = Some (Hands kvs)"
            by (rule lookup_append_Some)
          ultimately have "read_hands ?h2 ?kvs = Some (m(p \<mapsto> ?f))"
            by (rule read_hands_store) simp
          then have rh: "read_hands ?h3 ?kvs = Some (m(p \<mapsto> ?f))"
            using l2 by (rule read_hands_store) simp
          have "read_snapshot ?h' s = Some (snapshot_of ?ob (m(p \<mapsto> ?f)) ?es w)"
            using l3 rh by (intro store_snapshot) simp_all
          moreover from play pl p mp st
          have "playCard a st = Inr (snapshot_of ?ob (m(p \<mapsto> ?f)) ?es w)"
            by (simp add: playCard_def snapshot_of_def Let_def)
          moreover from l3(1) ge have "owned n ?h' s"
            by (intro owned_store) simp_all
          moreover have "same_below n h ?h'"
          proof -
            from n have a1: "same_below n h ?h1"
              by (rule same_below_append)
            from n ge have a2: "same_below n ?h1 ?h2"
              by (intro same_below_update) simp_all
            from n ge have a3: "same_below n ?h2 ?h3"
              by (intro same_below_update) simp_all
            from n ge have a4: "same_below n ?h3 ?h'"
              by (intro same_below_update) simp_all
            from a1 a2 have "same_below n h ?h2"
              by (rule same_below_trans)
            then have "same_below n h ?h3"
              using a3 by (rule same_below_trans)
            then show ?thesis
              using a4 by (rule same_below_trans)
          qed
          ultimately show ?thesis
            using c by simp
        qed
      qed
    qed
  qed
qed

subsection \<open>The whole action\<close>

lemma ex_heap_three: "read_snapshot ex_heap 7 = Some ex_three"
  by (simp add: read_snapshot_def snapshot_of_def ex_heap_def lookup_def ex_defs fun_eq_iff)

lemma applyAction_h_refines:
  assumes r: "read_snapshot h state = Some st"
  shows "\<exists>res ext. applyAction_h h state a = Some (res, h @ ext) \<and>
           (case applyAction st a of
              Inl e \<Rightarrow> res = Inl e
            | Inr st' \<Rightarrow> (\<exists>s. res = Inr s \<and> read_snapshot (h @ ext) s = Some st'))"
proof -
  let ?n = "length h"
  from r obtain ext1 s where c: "structuredClone h state = Some (h @ ext1, s)"
    and r1: "read_snapshot (h @ ext1) s = Some st" and o1: "owned ?n (h @ ext1) s"
    using structuredClone_reads by blast
  have n1: "?n \<le> length (h @ ext1)"
    by simp
  then have b1: "same_below ?n h (h @ ext1)"
    by (simp add: same_below_append)
  from r1 o1 n1 obtain h2 where c2: "clearTrick_h (h @ ext1) s = Some h2"
    and r2: "read_snapshot h2 s = Some (clearTrick st)" and o2: "owned ?n h2 s"
    and s2: "same_below ?n (h @ ext1) h2"
    using clearTrick_h_sim by blast
  from b1 s2 have b2: "same_below ?n h h2"
    by (rule same_below_trans)
  then have n2: "?n \<le> length h2"
    by (simp add: same_below_def)
  from b2 obtain e2 where e2: "h2 = h @ e2"
    using same_below_extends by blast
  note f = finalizeContract_h_sim [OF r2 o2 n2, of a]
  show ?thesis
  proof (cases "finalizeContract a (clearTrick st)")
    case (Inl e)
    with f have "finalizeContract_h a h2 s = Some (Inl e)"
      by simp
    with c c2 have "applyAction_h h state a = Some (Inl e, h2)"
      by (simp add: applyAction_h_def)
    moreover from Inl have "applyAction st a = Inl e"
      by (simp add: applyAction_def)
    ultimately show ?thesis
      using e2 by auto
  next
    case (Inr st3)
    with f obtain h3 where c3: "finalizeContract_h a h2 s = Some (Inr h3)"
      and r3: "read_snapshot h3 s = Some st3" and o3: "owned ?n h3 s"
      and s3: "same_below ?n h2 h3"
      by auto
    from b2 s3 have b3: "same_below ?n h h3"
      by (rule same_below_trans)
    then have n3: "?n \<le> length h3"
      by (simp add: same_below_def)
    from b3 obtain e3 where e3: "h3 = h @ e3"
      using same_below_extends by blast
    note g = playCard_h_sim [OF r3 o3 n3, of a]
    from Inr have ap: "applyAction st a = playCard a st3"
      by (simp add: applyAction_def)
    show ?thesis
    proof (cases "playCard a st3")
      case (Inl e)
      with g have "playCard_h a h3 s = Some (Inl e)"
        by simp
      with c c2 c3 have "applyAction_h h state a = Some (Inl e, h3)"
        by (simp add: applyAction_h_def)
      with ap Inl e3 show ?thesis
        by auto
    next
      case (Inr st4)
      with g obtain h4 where c4: "playCard_h a h3 s = Some (Inr h4)"
        and r4: "read_snapshot h4 s = Some st4" and s4: "same_below ?n h3 h4"
        by auto
      from b3 s4 have "same_below ?n h h4"
        by (rule same_below_trans)
      then obtain e4 where e4: "h4 = h @ e4"
        using same_below_extends by blast
      from c c2 c3 c4 have "applyAction_h h state a = Some (Inr s, h4)"
        by (simp add: applyAction_h_def)
      with ap Inr e4 r4 show ?thesis
        by auto
    qed
  qed
qed

section \<open>The claims about a single action\<close>

subsection \<open>Bidding actions\<close>

text \<open>
  C10. An action whose type is neither FINALIZE\_CONTRACT nor PLAY\_CARD never throws,
  and returns the input snapshot, but for the trick buffer: when \<open>trickComplete\<close> was
  set, \<open>trick\<close> is emptied and \<open>trickComplete\<close> reset. Every other field, and so
  \<open>currentPlayer\<close>, is the input's.
\<close>

theorem applyAction_other_frame:
  assumes "action_type a \<noteq> ''FINALIZE_CONTRACT''" and "action_type a \<noteq> ''PLAY_CARD''"
  shows "applyAction s a =
           Inr (if trickComplete s then s\<lparr>trick := [], trickComplete := False\<rparr> else s)"
  using assms by (simp add: step_defs)

theorem applyAction_other_frame_witness:
  "action_type ex_bid \<noteq> ''FINALIZE_CONTRACT'' \<and> action_type ex_bid \<noteq> ''PLAY_CARD'' \<and>
   applyAction ex_four ex_bid = Inr (ex_four\<lparr>trick := [], trickComplete := False\<rparr>)"
  using applyAction_other_frame [of ex_bid ex_four]
  by (simp add: ex_bid_def ex_four_def)

subsection \<open>The contract\<close>

text \<open>
  C4, as the code has it. A FINALIZE\_CONTRACT with a payload returns a snapshot whose
  \<open>mode\<close>, \<open>trump\<close> and \<open>currentPlayer\<close> are the payload's \<open>mode\<close>, \<open>trump_suit\<close> and
  \<open>floor_taker\<close> and whose \<open>phase\<close> is PLAYING; \<open>floorCard\<close> is not cleared: it is the
  input's.
\<close>

theorem finalize_sets_contract:
  assumes "action_type a = ''FINALIZE_CONTRACT''" and "payload a = Some pl"
  shows "\<exists>s'. applyAction s a = Inr s' \<and> mode s' = payload_mode pl \<and> trump s' = trump_suit pl \<and>
              phase s' = ''PLAYING'' \<and> currentPlayer s' = floor_taker pl \<and>
              floorCard s' = floorCard s"
  using assms by (simp add: step_defs)

theorem finalize_sets_contract_witness:
  "action_type ex_finalize = ''FINALIZE_CONTRACT'' \<and>
   (\<exists>s'. applyAction ex_bidding ex_finalize = Inr s' \<and> mode s' = Some ''SUN'' \<and> trump s' = None \<and>
         phase s' = ''PLAYING'' \<and> currentPlayer s' = Some 1 \<and> floorCard s' = Some ''QD'')"
  using finalize_sets_contract [of ex_finalize _ ex_bidding]
  by (simp add: ex_finalize_def ex_bidding_def buildInitialState_def ex_json_def)

text \<open>
  The claim as stated fails: after the contract of the example round is finalized,
  the floor card is still the queen of diamonds.
\<close>

theorem finalize_keeps_floorCard_counterexample:
  "action_type ex_finalize = ''FINALIZE_CONTRACT'' \<and>
   applyAction ex_bidding ex_finalize = Inr ex_contract \<and> floorCard ex_contract = Some ''QD''"
  by (simp add: ex_bidding_contract) (simp add: ex_defs)

subsection \<open>Turn order\<close>

text \<open>
  C6. After a PLAY\_CARD by player \<open>p\<close>, one of the seats 0 to 3, that leaves fewer than
  four cards on the trick, \<open>currentPlayer\<close> is \<open>(p + 1) mod 4\<close>.
\<close>

theorem play_advances_seat:
  assumes "action_type a = ''PLAY_CARD''" and "player a = Some p" and "0 \<le> p" and "p \<le> 3"
    and "applyAction s a = Inr s'" and "length (trick s') < 4"
  shows "currentPlayer s' = Some ((p + 1) mod 4)"
  using assms
  by (auto simp: step_defs Let_def js_rem_nonneg split: if_splits option.splits)

theorem play_advances_seat_witness:
  "action_type (ex_play 3 ''9C'') = ''PLAY_CARD'' \<and> player (ex_play 3 ''9C'') = Some 3 \<and>
   (0::int) \<le> 3 \<and> (3::int) \<le> 3 \<and> applyAction ex_two (ex_play 3 ''9C'') = Inr ex_three \<and>
   length (trick ex_three) < 4 \<and> currentPlayer ex_three = Some 0"
proof -
  have l: "length (trick ex_three) < 4"
    by (simp add: ex_three_def)
  have "currentPlayer ex_three = Some ((3 + 1) mod 4)"
    using play_advances_seat [OF ex_play_fields(1,2) _ _ ex_two_three l] by simp
  with l ex_two_three show ?thesis
    by (simp add: ex_play_fields)
qed

text \<open>
  C2, as the code has it. After the PLAY\_CARD that puts the fourth card on the trick,
  \<open>currentPlayer\<close> is the player of that fourth card. Neither the ranks of the cards nor
  the trump are looked at.
\<close>

theorem fourth_card_player_leads:
  assumes "action_type a = ''PLAY_CARD''" and "applyAction s a = Inr s'"
    and "length (trick s') = 4"
  shows "\<exists>p c. player a = Some p \<and> last (trick s') = (p, c) \<and> currentPlayer s' = Some p"
proof -
  from assms(1,2) obtain pl p h where "payload a = Some pl" and "player a = Some p"
    and "hands (clearTrick s) p = Some h" and
    "s' = (clearTrick s)
            \<lparr>hands := (hands (clearTrick s))(p \<mapsto> filter (\<lambda>c. Some c \<noteq> payload_card pl) h),
             trick := trick (clearTrick s) @ [(p, payload_card pl)],
             currentPlayer :=
               Some (if length (trick (clearTrick s)) = 3 then p else js_rem (p + 1) 4),
             trickComplete :=
               (length (trick (clearTrick s)) = 3 \<or> trickComplete (clearTrick s))\<rparr>"
    by (rule applyAction_play_Inr)
  with assms(3) show ?thesis
    by simp
qed

theorem fourth_card_player_leads_witness:
  "action_type (ex_play 0 ''7S'') = ''PLAY_CARD'' \<and>
   applyAction ex_three (ex_play 0 ''7S'') = Inr ex_four \<and> length (trick ex_four) = 4 \<and>
   (\<exists>p c. player (ex_play 0 ''7S'') = Some p \<and> last (trick ex_four) = (p, c) \<and>
          currentPlayer ex_four = Some p)"
proof -
  have l: "length (trick ex_four) = 4"
    by (simp add: ex_four_def)
  from fourth_card_player_leads [OF ex_play_fields(1) ex_three_four l] l show ?thesis
    by (simp add: ex_play_fields(1) ex_three_four)
qed

text \<open>
  The claim as stated fails: in the first trick of the example round seat 1 led the ace
  of hearts, nobody followed suit and there is no trump, so seat 1 is the resolved
  winner; the code makes seat 0, who played last, the current player.
\<close>

theorem winner_counterexample:
  "phase ex_three = ''PLAYING'' \<and> action_type (ex_play 0 ''7S'') = ''PLAY_CARD'' \<and>
   applyAction ex_three (ex_play 0 ''7S'') = Inr ex_four \<and> length (trick ex_four) = 4 \<and>
   resolveTrick rank_strength (trick ex_four) (trump ex_four) = Some 1 \<and>
   currentPlayer ex_four = Some 0"
  by (simp add: ex_three_four ex_play_fields ex_four_resolved) (simp add: ex_defs)

subsection \<open>Completing a trick\<close>

text \<open>
  C3, as the code has it. The PLAY\_CARD that puts the fourth card on the trick sets
  \<open>trickComplete\<close>; \<open>tricksWon\<close> is the input's: no entry of it is incremented.
\<close>

theorem fourth_card_keeps_tricksWon:
  assumes "action_type a = ''PLAY_CARD''" and "applyAction s a = Inr s'"
    and "length (trick s') = 4"
  shows "trickComplete s' \<and> tricksWon s' = tricksWon s"
proof -
  from assms(1,2) obtain pl p h where "payload a = Some pl" and "player a = Some p"
    and "hands (clearTrick s) p = Some h" and
    "s' = (clearTrick s)
            \<lparr>hands := (hands (clearTrick s))(p \<mapsto> filter (\<lambda>c. Some c \<noteq> payload_card pl) h),
             trick := trick (clearTrick s) @ [(p, payload_card pl)],
             currentPlayer :=
               Some (if length (trick (clearTrick s)) = 3 then p else js_rem (p + 1) 4),
             trickComplete :=
               (length (trick (clearTrick s)) = 3 \<or> trickComplete (clearTrick s))\<rparr>"
    by (rule applyAction_play_Inr)
  with assms(3) show ?thesis
    by simp
qed

theorem fourth_card_keeps_tricksWon_witness:
  "action_type (ex_play 0 ''7S'') = ''PLAY_CARD'' \<and>
   applyAction ex_three (ex_play 0 ''7S'') = Inr ex_four \<and> length (trick ex_four) = 4 \<and>
   trickComplete ex_four \<and> tricksWon ex_four = tricksWon ex_three"
proof -
  have l: "length (trick ex_four) = 4"
    by (simp add: ex_four_def)
  from fourth_card_keeps_tricksWon [OF ex_play_fields(1) ex_three_four l] l show ?thesis
    by (simp add: ex_play_fields ex_three_four)
qed

text \<open>
  The claim as stated fails: the fourth card of the first trick of the example round
  leaves the count of every seat at zero.
\<close>

theorem tricksWon_counterexample:
  "action_type (ex_play 0 ''7S'') = ''PLAY_CARD'' \<and>
   applyAction ex_three (ex_play 0 ''7S'') = Inr ex_four \<and> length (trick ex_four) = 4 \<and>
   map (tricksWon ex_three) seats = [Some 0, Some 0, Some 0, Some 0] \<and>
   map (tricksWon ex_four) seats = [Some 0, Some 0, Some 0, Some 0]"
  by (simp add: ex_three_four ex_play_fields) (simp add: ex_defs seats_def)

subsection \<open>The phase\<close>

text \<open>
  C5, as the code has it. \<open>applyAction\<close> never moves a snapshot to the phase DONE: the
  phase it returns is PLAYING after a FINALIZE\_CONTRACT and the input's phase after any
  other action, whether the hands are empty or not. A returned snapshot is in phase
  DONE only if the input snapshot was.
\<close>

theorem phase_never_done:
  assumes "applyAction s a = Inr s'"
  shows "phase s' = (if action_type a = ''FINALIZE_CONTRACT'' then ''PLAYING'' else phase s) \<and>
         (phase s' = ''DONE'' \<longrightarrow> phase s = ''DONE'')"
  using assms
  by (auto simp: step_defs Let_def split: if_splits option.splits)

theorem phase_never_done_witness:
  "applyAction ex_last (ex_play 0 ''8S'') = Inr ex_done \<and>
   phase ex_done = ''PLAYING'' \<and> phase ex_last = ''PLAYING''"
  using phase_never_done [OF ex_last_done]
  by (simp add: ex_last_done ex_play_fields) (simp add: ex_defs)

text \<open>
  The claim as stated fails: the last card of the example round empties the four
  hands, and the phase stays PLAYING.
\<close>

theorem empty_hands_counterexample:
  "applyAction ex_last (ex_play 0 ''8S'') = Inr ex_done \<and>
   map (hands ex_done) seats = [Some [], Some [], Some [], Some []] \<and>
   phase ex_done \<noteq> ''DONE''"
  by (simp add: ex_last_done) (simp add: ex_defs seats_def)

subsection \<open>Cards that the player does not hold\<close>

text \<open>
  C1, as the code has it. \<open>applyAction\<close> does not validate a PLAY\_CARD. When the action
  has a payload and a player, and the player has a hand, the action returns a new
  snapshot (there is no IllegalAction error) with the entry of player and card appended
  to the trick, cleared first if it was complete; when the card is not in the hand of
  the player, the hands of the new snapshot are the hands of the input. On every store
  that holds the input snapshot, the call returns the address of a new object and
  leaves the store it was given with new objects appended: the input snapshot reads
  afterwards as before.
\<close>

theorem play_not_validated:
  assumes "action_type a = ''PLAY_CARD''" and "payload a = Some pl" and "player a = Some p"
    and "hands s p = Some h"
  shows "(\<exists>s'. applyAction s a = Inr s' \<and>
               trick s' = trick (clearTrick s) @ [(p, payload_card pl)] \<and>
               (payload_card pl \<notin> Some ` set h \<longrightarrow> hands s' = hands s)) \<and>
         (read_snapshot store state = Some s \<longrightarrow>
            (\<exists>r ext. applyAction_h store state a = Some (Inr r, store @ ext) \<and>
                     read_snapshot (store @ ext) state = Some s))"
proof (intro conjI impI)
  have "payload_card pl \<notin> Some ` set h \<Longrightarrow> filter (\<lambda>c. Some c \<noteq> payload_card pl) h = h"
    by (induction h) auto
  with assms show ok: "\<exists>s'. applyAction s a = Inr s' \<and>
               trick s' = trick (clearTrick s) @ [(p, payload_card pl)] \<and>
               (payload_card pl \<notin> Some ` set h \<longrightarrow> hands s' = hands s)"
    by (auto simp: applyAction_play playCard_success)
  assume r: "read_snapshot store state = Some s"
  then obtain res ext where "applyAction_h store state a = Some (res, store @ ext)"
    and "case applyAction s a of
           Inl e \<Rightarrow> res = Inl e
         | Inr st' \<Rightarrow> (\<exists>r. res = Inr r \<and> read_snapshot (store @ ext) r = Some st')"
    using applyAction_h_refines by blast
  moreover from r have "read_snapshot (store @ ext) state = Some s"
    by (rule read_snapshot_append)
  ultimately show "\<exists>r ext. applyAction_h store state a = Some (Inr r, store @ ext) \<and>
                     read_snapshot (store @ ext) state = Some s"
    using ok by auto
qed

theorem play_not_validated_witness:
  "action_type (ex_play 0 ''AS'') = ''PLAY_CARD'' \<and> player (ex_play 0 ''AS'') = Some 0 \<and>
   hands ex_three 0 = Some [''7S'', ''8S''] \<and> Some ''AS'' \<notin> Some ` set [''7S'', ''8S''] \<and>
   (\<exists>s'. applyAction ex_three (ex_play 0 ''AS'') = Inr s' \<and>
         trick s' = [(1, Some ''AH''), (2, Some ''9D''), (3, Some ''9C''), (0, Some ''AS'')] \<and>
         hands s' = hands ex_three) \<and>
   read_snapshot ex_heap 7 = Some ex_three \<and>
   (\<exists>r ext. applyAction_h ex_heap 7 (ex_play 0 ''AS'') = Some (Inr r, ex_heap @ ext) \<and>
            read_snapshot (ex_heap @ ext) 7 = Some ex_three)"
proof -
  have h: "hands ex_three 0 = Some [''7S'', ''8S'']"
    by (simp add: ex_defs)
  have n: "payload_card \<lparr> payload_mode = None, trump_suit = None, floor_taker = None,
             payload_card = Some ''AS'' \<rparr> \<notin> Some ` set [''7S'', ''8S'']"
    by simp
  have c: "trick (clearTrick ex_three) =
             [(1, Some ''AH''), (2, Some ''9D''), (3, Some ''9C'')]"
    by (simp add: ex_defs clearTrick_def)
  note f = ex_play_fields [of 0 "''AS''"]
  from play_not_validated [OF f(1) f(3) f(2) h, of ex_heap 7] n c ex_heap_three show ?thesis
    by (simp add: f h)
qed

text \<open>
  The claim as stated fails: seat 1 holds the ace and the seven of hearts; the action
  that plays the king of clubs for seat 1 returns a snapshot, with the king of clubs
  on the trick and seat 2 to play.
\<close>

theorem illegal_play_counterexample:
  "action_type (ex_play 1 ''KC'') = ''PLAY_CARD'' \<and> player (ex_play 1 ''KC'') = Some 1 \<and>
   ''KC'' \<notin> set (hand_of ex_contract 1) \<and>
   applyAction ex_contract (ex_play 1 ''KC'') =
     Inr (ex_contract\<lparr>trick := [(1, Some ''KC'')], currentPlayer := Some 2\<rparr>)"
  by (simp add: ex_play_fields)
     (simp add: ex_defs step_defs js_rem_def hand_of_def fun_eq_iff)

section \<open>The claims about reachable snapshots\<close>

subsection \<open>The life of a trick\<close>

text \<open>
  C7. In every snapshot reachable from the initial snapshot of a round the trick has at
  most four entries; when it has four, \<open>trickComplete\<close> is set, the next action is
  applied to the snapshot with the trick emptied and \<open>trickComplete\<close> reset, and the
  snapshot it returns has on the trick the entry of that action only (nothing, for an
  action that plays no card) and \<open>trickComplete\<close> reset.
\<close>

theorem trick_lifecycle:
  assumes "reachable json s"
  shows "length (trick s) \<le> 4 \<and>
         (length (trick s) = 4 \<longrightarrow>
            trickComplete s \<and>
            applyAction s a = applyAction (s\<lparr>trick := [], trickComplete := False\<rparr>) a \<and>
            (\<forall>s'. applyAction s a = Inr s' \<longrightarrow> trick s' = played_entry a \<and> \<not> trickComplete s'))"
proof -
  from assms have inv: "trick_inv s"
    by (rule reachable_trick_inv)
  then have le: "length (trick s) \<le> 4"
    by (simp add: trick_inv_def)
  have "trickComplete s \<and>
        applyAction s a = applyAction (s\<lparr>trick := [], trickComplete := False\<rparr>) a \<and>
        (\<forall>s'. applyAction s a = Inr s' \<longrightarrow> trick s' = played_entry a \<and> \<not> trickComplete s')"
    if four: "length (trick s) = 4"
  proof (intro conjI allI impI)
    from inv four show c: "trickComplete s"
      by (simp add: trick_inv_def)
    then have cl: "clearTrick s = s\<lparr>trick := [], trickComplete := False\<rparr>"
      by (rule clearTrick_complete)
    from applyAction_clearTrick [of s a] cl
    show "applyAction s a = applyAction (s\<lparr>trick := [], trickComplete := False\<rparr>) a"
      by simp
    fix s' assume r: "applyAction s a = Inr s'"
    from trick_after [OF r] cl show t: "trick s' = played_entry a"
      by simp
    from inv r have "trick_inv s'"
      by (rule trick_inv_step)
    moreover from t have "length (trick s') \<noteq> 4"
      by (simp add: played_entry_def split: option.splits)
    ultimately show "\<not> trickComplete s'"
      by (simp add: trick_inv_def)
  qed
  with le show ?thesis
    by blast
qed

theorem trick_lifecycle_witness:
  "reachable ex_json ex_four \<and> length (trick ex_four) = 4 \<and> trickComplete ex_four \<and>
   applyAction ex_four (ex_play 1 ''7H'') = Inr ex_five \<and>
   trick ex_five = [(1, Some ''7H'')] \<and> \<not> trickComplete ex_five"
proof -
  have r: "reachable ex_json ex_four"
    using ex_replay(5) by (rule computeStateAt_reachable)
  have l: "length (trick ex_four) = 4"
    by (simp add: ex_four_def)
  from trick_lifecycle [OF r, of "ex_play 1 ''7H''"] l ex_four_five
  have "trickComplete ex_four \<and> trick ex_five = played_entry (ex_play 1 ''7H'') \<and>
        \<not> trickComplete ex_five"
    by blast
  with r l ex_four_five show ?thesis
    by (simp add: played_entry_def ex_play_def)
qed

subsection \<open>Conservation of the cards\<close>

text \<open>
  C8, as the code has it. Let the four hands of the initial snapshot be free of
  duplicates and pairwise disjoint. Then so are the four hands of every snapshot that a
  log reaches. When every PLAY\_CARD of the log names a seat and a card that the seat
  held at that point, the cards of the four hands together with the cards played in the
  log are the cards of the initial hands, as multisets (the snapshot keeps no record of
  completed tricks: the log does). A PLAY\_CARD of a held card makes the summed hand
  sizes one smaller.
\<close>

theorem held_cards_conserved:
  assumes "distinct (all_cards (buildInitialState json))"
    and "applyAll (buildInitialState json) log = Inr s"
  shows "distinct (all_cards s) \<and>
         (held_log (buildInitialState json) log \<longrightarrow>
            mset (all_cards s) + mset (played_cards log) = mset (all_cards (buildInitialState json))) \<and>
         (\<forall>a s'. action_type a = ''PLAY_CARD'' \<and> plays_held_card s a \<and> applyAction s a = Inr s' \<longrightarrow>
            hand_total s' + 1 = hand_total s)"
proof (intro conjI impI allI)
  show d: "distinct (all_cards s)"
    using assms
  proof (induction log arbitrary: s rule: rev_induct)
    case Nil
    then show ?case by simp
  next
    case (snoc a log)
    from snoc.prems(2) obtain s1 where "applyAll (buildInitialState json) log = Inr s1"
      and r: "applyAction s1 a = Inr s"
      by (auto simp: applyAll_append split: sum.splits)
    with snoc have "distinct (all_cards s1)"
      by simp
    with r show ?case
      by (rule all_cards_step)
  qed
  show "mset (all_cards s) + mset (played_cards log) = mset (all_cards (buildInitialState json))"
    if "held_log (buildInitialState json) log"
    using held_log_conserves [OF assms(1) that assms(2)] by simp
  fix a s'
  assume a: "action_type a = ''PLAY_CARD'' \<and> plays_held_card s a \<and> applyAction s a = Inr s'"
  with d have "mset (all_cards s') + mset (action_card a) = mset (all_cards s)"
    by (intro held_play_step) simp_all
  moreover from a have "length (action_card a) = 1"
    by (auto simp: action_card_def plays_held_card_def split: option.splits)
  ultimately have "size (mset (all_cards s')) + 1 = size (mset (all_cards s))"
    by (metis size_mset size_union)
  then show "hand_total s' + 1 = hand_total s"
    by (simp add: hand_total_def)
qed

theorem held_cards_conserved_witness:
  "distinct (all_cards (buildInitialState ex_json)) \<and>
   applyAll (buildInitialState ex_json) (take 10 (actions ex_json)) = Inr ex_last \<and>
   held_log (buildInitialState ex_json) (take 10 (actions ex_json)) \<and>
   distinct (all_cards ex_last) \<and>
   mset (all_cards ex_last) + mset (played_cards (take 10 (actions ex_json)))
     = mset (all_cards (buildInitialState ex_json)) \<and>
   action_type (ex_play 0 ''8S'') = ''PLAY_CARD'' \<and> plays_held_card ex_last (ex_play 0 ''8S'') \<and>
   applyAction ex_last (ex_play 0 ''8S'') = Inr ex_done \<and>
   hand_total ex_done + 1 = hand_total ex_last"
proof -
  have d: "distinct (all_cards (buildInitialState ex_json))"
    by (simp add: all_cards_def hand_of_def seats_def buildInitialState_def ex_json_def ex_hands_def)
  have l: "applyAll (buildInitialState ex_json) (take 10 (actions ex_json)) = Inr ex_last"
    using ex_log_ten by (simp add: ex_bidding_def)
  have h: "held_log (buildInitialState ex_json) (take 10 (actions ex_json))"
    using ex_held_ten by (simp add: ex_bidding_def)
  have p: "plays_held_card ex_last (ex_play 0 ''8S'')"
    by (simp add: plays_held_card_def ex_defs seats_def)
  from held_cards_conserved [OF d l] h p ex_last_done ex_play_fields(1) [of 0 "''8S''"]
  have "distinct (all_cards ex_last) \<and>
        mset (all_cards ex_last) + mset (played_cards (take 10 (actions ex_json)))
          = mset (all_cards (buildInitialState ex_json)) \<and>
        hand_total ex_done + 1 = hand_total ex_last"
    by blast
  with d l h p ex_last_done show ?thesis
    by (simp add: ex_play_fields)
qed

text \<open>
  The claim as stated fails: after two cards of the example round, a PLAY\_CARD of the
  ace of spades for seat 3, who does not hold it, puts the card on the trick and leaves
  the summed hand sizes as they were.
\<close>

theorem unheld_play_counterexample:
  "reachable ex_json ex_two \<and> action_type (ex_play 3 ''AS'') = ''PLAY_CARD'' \<and>
   (case applyAction ex_two (ex_play 3 ''AS'') of
      Inl e \<Rightarrow> False
    | Inr s' \<Rightarrow> hand_total s' = hand_total ex_two \<and> trick s' = trick ex_two @ [(3, Some ''AS'')])"
proof -
  have "reachable ex_json ex_two"
    using ex_replay(3) by (rule computeStateAt_reachable)
  then show ?thesis
    by (simp add: ex_play_fields)
       (simp add: ex_defs step_defs js_rem_def hand_total_def all_cards_def hand_of_def seats_def)
qed

subsection \<open>Determinism of the replay\<close>

text \<open>
  C9. \<open>applyAction\<close> is deterministic and keeps no state. On every store that holds the
  snapshot \<open>st\<close> at the address of the call, the call returns what the function
  \<open>applyAction st a\<close> returns (a snapshot that reads as its result, or its error), and
  leaves the store it was given with new objects appended: what it returns depends on
  the snapshot and the action only, and the input snapshot, like every other snapshot
  of the store, reads afterwards as before, so a second call with an equal input
  returns an equal output. The loop of \<open>computeStateAt\<close> is the fold \<open>stateAt\<close> of the
  specification over the first \<open>k\<close> actions (and throws beyond the end of the log), so
  its result depends on the initial snapshot and the first \<open>k\<close> actions only: nothing
  is carried over from the computation of another step.
\<close>

theorem replay_deterministic:
  "(read_snapshot h state = Some st \<longrightarrow>
      (\<exists>res ext. applyAction_h h state a = Some (res, h @ ext) \<and>
         read_snapshot (h @ ext) state = Some st \<and>
         (case applyAction st a of
            Inl e \<Rightarrow> res = Inl e
          | Inr st' \<Rightarrow> (\<exists>s. res = Inr s \<and> read_snapshot (h @ ext) s = Some st')))) \<and>
   computeStateAt json k =
     (if k \<le> length (actions json) then stateAt (buildInitialState json) (actions json) k
      else Inl TypeError) \<and>
   (buildInitialState json' = buildInitialState json \<and>
    take k (actions json') = take k (actions json) \<and>
    k \<le> length (actions json) \<and> k \<le> length (actions json') \<longrightarrow>
      computeStateAt json' k = computeStateAt json k)"
proof (intro conjI impI)
  assume r: "read_snapshot h state = Some st"
  then obtain res ext where "applyAction_h h state a = Some (res, h @ ext)"
    and "case applyAction st a of
           Inl e \<Rightarrow> res = Inl e
         | Inr st' \<Rightarrow> (\<exists>s. res = Inr s \<and> read_snapshot (h @ ext) s = Some st')"
    using applyAction_h_refines by blast
  moreover from r have "read_snapshot (h @ ext) state = Some st"
    by (rule read_snapshot_append)
  ultimately show "\<exists>res ext. applyAction_h h state a = Some (res, h @ ext) \<and>
         read_snapshot (h @ ext) state = Some st \<and>
         (case applyAction st a of
            Inl e \<Rightarrow> res = Inl e
          | Inr st' \<Rightarrow> (\<exists>s. res = Inr s \<and> read_snapshot (h @ ext) s = Some st'))"
    by blast
next
  show "computeStateAt json k =
     (if k \<le> length (actions json) then stateAt (buildInitialState json) (actions json) k
      else Inl TypeError)"
    by (simp add: computeStateAt_fold computeStateAt_beyond stateAt_def)
next
  assume "buildInitialState json' = buildInitialState json \<and>
    take k (actions json') = take k (actions json) \<and>
    k \<le> length (actions json) \<and> k \<le> length (actions json')"
  then show "computeStateAt json' k = computeStateAt json k"
    by (simp add: computeStateAt_fold)
qed

theorem replay_deterministic_witness:
  "read_snapshot ex_heap 7 = Some ex_three \<and>
   (\<exists>s ext. applyAction_h ex_heap 7 (ex_play 0 ''7S'') = Some (Inr s, ex_heap @ ext) \<and>
            read_snapshot (ex_heap @ ext) 7 = Some ex_three \<and>
            read_snapshot (ex_heap @ ext) s = Some ex_four) \<and>
   computeStateAt ex_json 7 = stateAt (buildInitialState ex_json) (actions ex_json) 7 \<and>
   computeStateAt (ex_json\<lparr>actions := take 7 (actions ex_json)\<rparr>) 7 = computeStateAt ex_json 7 \<and>
   computeStateAt ex_json 7 = Inr ex_four"
proof -
  note d = replay_deterministic [of ex_heap 7 ex_three "ex_play 0 ''7S''" ex_json 7
      "ex_json\<lparr>actions := take 7 (actions ex_json)\<rparr>"]
  from d ex_heap_three ex_three_four
  have "\<exists>s ext. applyAction_h ex_heap 7 (ex_play 0 ''7S'') = Some (Inr s, ex_heap @ ext) \<and>
            read_snapshot (ex_heap @ ext) 7 = Some ex_three \<and>
            read_snapshot (ex_heap @ ext) s = Some ex_four"
    by auto
  moreover from d
  have "computeStateAt ex_json 7 = stateAt (buildInitialState ex_json) (actions ex_json) 7 \<and>
        computeStateAt (ex_json\<lparr>actions := take 7 (actions ex_json)\<rparr>) 7 = computeStateAt ex_json 7"
    by (simp add: ex_json_def buildInitialState_def)
  ultimately show ?thesis
    using ex_heap_three ex_replay(5) by simp
qed

end
